theory Spec2Isabelle
  imports Main "HOL-Library.Word" "HOL-Library.Multiset"
begin

unbundle bit_operations_syntax

section \<open>Data model\<close>

text \<open>
  The script \<^verbatim>\<open>scripts/gen_settings_v2.py\<close> works on Python objects declared in the module
  \<^verbatim>\<open>gen_settings_types_v2\<close>. Objects of class \<^verbatim>\<open>StructVal\<close> are mutable (their
  \<^verbatim>\<open>offset\<close> attribute is assigned during flattening) and are referred to from the field
  lists of other \<^verbatim>\<open>StructVal\<close> objects, so they live in an explicit store indexed by
  object identity. Primitive \<^verbatim>\<open>Val\<close> objects are only read, so they are kept inline in the
  field list that refers to them.
\<close>

type_synonym addr = nat
type_synonym byte = "8 word"

datatype error = AssertionError | IndexError | TypeError | StructError | RangeError

text \<open>
  Modelled from the spec: the Type Registry of \<^verbatim>\<open>gen_settings_types_v2\<close> (not in the
  sources at hand). Its pack formats are the unsigned fixed-width integers of 1, 2, 4 and 8
  bytes, written in the notation of Python's \<^verbatim>\<open>struct\<close> module as
  \<^verbatim>\<open>"<B"\<close>, \<^verbatim>\<open>"<H"\<close>, \<^verbatim>\<open>"<I"\<close> and \<^verbatim>\<open>"<Q"\<close>.
\<close>

datatype pack_format = Fmt_B | Fmt_H | Fmt_I | Fmt_Q

record Type =
  name :: string
  c_type :: string
  pack_format :: pack_format

record Var =
  var_name :: string
  var_typ :: Type

record StructDef =
  struct_name :: string
  vars :: "Var list"
  c_size :: int

text \<open>The values a primitive \<^verbatim>\<open>Val\<close> can be bound to.\<close>

datatype pyval = NoneV | BoolV bool | IntV int | StrV string

text \<open>
  An element of a \<^verbatim>\<open>StructVal\<close>'s field list: a primitive \<^verbatim>\<open>Val\<close> with its
  \<^verbatim>\<open>typ\<close> and \<^verbatim>\<open>val\<close>, or a reference to a \<^verbatim>\<open>StructVal\<close> object of the store.
\<close>

datatype field = Prim Type pyval | Ref addr

record StructVal =
  s_typ :: Type
  struct_def :: StructDef
  val :: "field list option"
  offset :: "int option"

type_synonym heap = "addr \<Rightarrow> StructVal"

fun is_struct :: "field \<Rightarrow> bool" where
  "is_struct (Prim t v) = False"
| "is_struct (Ref a) = True"

fun isinstance_StructVal :: "field \<Rightarrow> bool" where
  "isinstance_StructVal (Prim t v) = False"
| "isinstance_StructVal (Ref a) = True"

fun field_typ :: "heap \<Rightarrow> field \<Rightarrow> Type" where
  "field_typ h (Prim t v) = t"
| "field_typ h (Ref a) = s_typ (h a)"

text \<open>\<^verbatim>\<open>field.val != None\<close>\<close>

fun val_not_None :: "heap \<Rightarrow> field \<Rightarrow> bool" where
  "val_not_None h (Prim t v) = (v \<noteq> NoneV)"
| "val_not_None h (Ref a) = (val (h a) \<noteq> None)"

section \<open>The layout flattener\<close>

text \<open>
  The inner \<^verbatim>\<open>for field in val.val\<close> loop of \<^verbatim>\<open>flatten_values_tree\<close>: every field that
  is a struct with a value is appended to \<^verbatim>\<open>left\<close>.
\<close>

fun enqueue :: "heap \<Rightarrow> field list \<Rightarrow> addr list \<Rightarrow> error + addr list" where
  "enqueue h [] left = Inr left"
| "enqueue h (fld # flds) left =
     (if is_struct fld \<and> val_not_None h fld then
        (case fld of
           Prim t v \<Rightarrow> Inl AssertionError
         | Ref a \<Rightarrow>
             if \<not> isinstance_StructVal fld then Inl AssertionError
             else enqueue h flds (left @ [a]))
      else enqueue h flds left)"

text \<open>
  The \<^verbatim>\<open>while len(left) > 0\<close> loop. It need not end (the store may hold a cycle), so not
  returning is the value \<open>None\<close>. An exception leaves the store as it is at that moment.
\<close>

partial_function (option) flatten_loop ::
  "heap \<Rightarrow> addr list \<Rightarrow> int \<Rightarrow> addr list \<Rightarrow> ((error + addr list) \<times> heap) option" where
  "flatten_loop h left offs vals =
     (case left of
        [] \<Rightarrow> Some (Inr vals, h)
      | v # left' \<Rightarrow>
          (let h' = h(v := (h v)\<lparr>offset := Some offs\<rparr>) in
           case val (h' v) of
             None \<Rightarrow> Some (Inl TypeError, h')
           | Some flds \<Rightarrow>
               (case enqueue h' flds left' of
                  Inl e \<Rightarrow> Some (Inl e, h')
                | Inr left'' \<Rightarrow>
                    flatten_loop h' left'' (offs + c_size (struct_def (h' v))) (vals @ [v]))))"

declare flatten_loop.simps [code]

definition flatten_values_tree :: "heap \<Rightarrow> field \<Rightarrow> ((error + addr list) \<times> heap) option" where
  "flatten_values_tree h root =
     (case root of
        Prim t v \<Rightarrow> Some (Inl AssertionError, h)
      | Ref a \<Rightarrow>
          (case vars (struct_def (h a)) of
             [] \<Rightarrow> Some (Inl IndexError, h)
           | v0 # _ \<Rightarrow>
               if ''version'' \<noteq> var_name v0 then Some (Inl AssertionError, h)
               else flatten_loop h [a] 0 []))"

section \<open>The byte emitter\<close>

text \<open>
  Python's \<^verbatim>\<open>struct.pack(fmt, val)\<close> for the formats above: an integer (or a bool, which
  is an integer in Python) in the range of the format gives its little-endian bytes, anything
  else raises \<^verbatim>\<open>struct.error\<close>.
\<close>

fun calcsize :: "pack_format \<Rightarrow> nat" where
  "calcsize Fmt_B = 1"
| "calcsize Fmt_H = 2"
| "calcsize Fmt_I = 4"
| "calcsize Fmt_Q = 8"

definition le_bytes :: "nat \<Rightarrow> int \<Rightarrow> byte list" where
  "le_bytes n v = map (\<lambda>i. word_of_int (drop_bit (8 * i) v)) [0..<n]"

fun struct_pack :: "pack_format \<Rightarrow> pyval \<Rightarrow> error + byte list" where
  "struct_pack fmt (IntV v) =
     (if 0 \<le> v \<and> v < 2 ^ (8 * calcsize fmt) then Inr (le_bytes (calcsize fmt) v)
      else Inl StructError)"
| "struct_pack fmt (BoolV b) = Inr (le_bytes (calcsize fmt) (if b then 1 else 0))"
| "struct_pack fmt NoneV = Inl StructError"
| "struct_pack fmt (StrV s) = Inl StructError"

fun is_of_num_type :: "pyval \<Rightarrow> bool" where
  "is_of_num_type (IntV v) = True"
| "is_of_num_type _ = False"

text \<open>
  The generated text is kept line by line, and a line built by a format string is kept as
  the values substituted into it: \<open>StructComment name offset\<close> stands for
  \<^verbatim>\<open>"  // %s offset: %s" % (name, hex(offset))\<close> and
  \<open>DataLine data var_type var_name val\<close> for
  \<^verbatim>\<open>"  %(data_hex)s, // %(var_type)s %(var_name)s = %(val_str)s"\<close>,
  where \<open>data\<close> are the bytes that \<^verbatim>\<open>data_to_hex\<close> prints and \<open>val\<close> is
  \<open>Hex v\<close> for \<^verbatim>\<open>hex(val)\<close> and \<open>Str v\<close> for \<^verbatim>\<open>str(val)\<close>.
\<close>

datatype val_str = Hex int | Str pyval

datatype line = Text string | StructComment string int | DataLine "byte list" string string val_str

fun hex :: "pyval \<Rightarrow> val_str" where
  "hex (IntV v) = Hex v"
| "hex v = Str v"

text \<open>
  The value that is packed for a field: the \<^verbatim>\<open>offset\<close> of a struct field, which must
  not be \<^verbatim>\<open>None\<close>, and the \<^verbatim>\<open>val\<close> of any other field.
\<close>

fun field_value :: "heap \<Rightarrow> field \<Rightarrow> error + pyval" where
  "field_value h (Prim t v) = Inr v"
| "field_value h (Ref a) =
     (case offset (h a) of
        None \<Rightarrow> Inl AssertionError
      | Some off \<Rightarrow> Inr (IntV off))"

text \<open>The \<^verbatim>\<open>for field in struct_val.val\<close> loop of \<^verbatim>\<open>get_cpp_data_for_struct_val\<close>.\<close>

fun field_lines :: "heap \<Rightarrow> field list \<Rightarrow> line list \<Rightarrow> int \<Rightarrow> error + (line list \<times> int)" where
  "field_lines h [] lines sz = Inr (lines, sz)"
| "field_lines h (fld # flds) lines sz =
     (let fmt = pack_format (field_typ h fld) in
      case field_value h fld of
        Inl e \<Rightarrow> Inl e
      | Inr v \<Rightarrow>
          (case struct_pack fmt v of
             Inl e \<Rightarrow> Inl e
           | Inr data \<Rightarrow>
               field_lines h flds
                 (lines @ [DataLine data (c_type (field_typ h fld)) (name (field_typ h fld))
                             (if is_of_num_type v then hex v else Str v)])
                 (sz + int (length data))))"

definition get_cpp_data_for_struct_val :: "heap \<Rightarrow> addr \<Rightarrow> int \<Rightarrow> error + (line list \<times> int)" where
  "get_cpp_data_for_struct_val h struct_val offs =
     (if \<not> isinstance_StructVal (Ref struct_val) then Inl AssertionError
      else
        let nm = struct_name (struct_def (h struct_val));
            lines = [Text [], StructComment nm offs]
        in case val (h struct_val) of
             None \<Rightarrow> Inl TypeError
           | Some flds \<Rightarrow> field_lines h flds lines 0)"

text \<open>The \<^verbatim>\<open>for val in vals\<close> loop of \<^verbatim>\<open>gen_cpp_data_for_struct_values\<close>.\<close>

fun struct_lines :: "heap \<Rightarrow> addr list \<Rightarrow> line list \<Rightarrow> int \<Rightarrow> error + (line list \<times> int)" where
  "struct_lines h [] lines offs = Inr (lines, offs)"
| "struct_lines h (v # vals) lines offs =
     (case get_cpp_data_for_struct_val h v offs of
        Inl e \<Rightarrow> Inl e
      | Inr (ls, sz) \<Rightarrow> struct_lines h vals (lines @ ls) (offs + sz))"

text \<open>
  \<^verbatim>\<open>gen_cpp_data_for_struct_values\<close>; the result is the list of lines that the source joins
  with newlines.
\<close>

definition gen_cpp_data_for_struct_values :: "heap \<Rightarrow> addr list \<Rightarrow> error + line list" where
  "gen_cpp_data_for_struct_values h vals =
     (case vals of
        [] \<Rightarrow> Inl IndexError
      | v # _ \<Rightarrow>
          if \<not> isinstance_StructVal (Ref v) then Inl AssertionError
          else
            let nm = struct_name (struct_def (h v));
                lines = [Text (''static uint8_t g'' @ nm @ ''Default[] = {'')]
            in case struct_lines h vals lines 0 of
                 Inl e \<Rightarrow> Inl e
               | Inr (ls, offs) \<Rightarrow> Inr (ls @ [Text ''};'']))"

text \<open>The bytes written in a list of generated lines, in order.\<close>

fun line_data :: "line \<Rightarrow> byte list" where
  "line_data (DataLine data ty nm v) = data"
| "line_data _ = []"

definition emitted_bytes :: "line list \<Rightarrow> byte list" where
  "emitted_bytes ls = concat (map line_data ls)"

text \<open>
  The steps of \<^verbatim>\<open>main\<close> between reading the value tree and writing the file:
  \<^verbatim>\<open>vals = flatten_values_tree(val)\<close>, then
  \<^verbatim>\<open>values_global_data = gen_cpp_data_for_struct_values(vals)\<close>.
\<close>

definition values_global_data :: "heap \<Rightarrow> field \<Rightarrow> ((error + line list) \<times> heap) option" where
  "values_global_data h root =
     (case flatten_values_tree h root of
        None \<Rightarrow> None
      | Some (Inl e, h') \<Rightarrow> Some (Inl e, h')
      | Some (Inr vals, h') \<Rightarrow> Some (gen_cpp_data_for_struct_values h' vals, h'))"

section \<open>The version codec\<close>

text \<open>
  Modelled from the spec: the version codec. The script has no function for it; its module
  docstring gives the encoding (version "2.1.3" is \<^verbatim>\<open>(2 << 24) | (1 << 16) | (3 << 8) | 0\<close>,
  each component in the range 0 to 255), and the spec's \<^verbatim>\<open>encode\<close> fails with
  \<^verbatim>\<open>RangeError\<close> outside that range.
\<close>

definition version_component :: "int \<Rightarrow> bool" where
  "version_component c = (0 \<le> c \<and> c \<le> 255)"

definition encode :: "int \<Rightarrow> int \<Rightarrow> int \<Rightarrow> int \<Rightarrow> error + int" where
  "encode major minor patch build =
     (if version_component major \<and> version_component minor \<and> version_component patch
         \<and> version_component build
      then Inr (push_bit 24 major OR push_bit 16 minor OR push_bit 8 patch OR build)
      else Inl RangeError)"

text \<open>Lexicographic comparison of two versions, major component first.\<close>

fun version_less :: "int \<times> int \<times> int \<times> int \<Rightarrow> int \<times> int \<times> int \<times> int \<Rightarrow> bool" where
  "version_less (M1, m1, p1, b1) (M2, m2, p2, b2) =
     (M1 < M2 \<or> (M1 = M2 \<and> (m1 < m2 \<or> (m1 = m2 \<and> (p1 < p2 \<or> (p1 = p2 \<and> b1 < b2))))))"

section \<open>Value trees in the store\<close>

text \<open>
  The struct fields of a field list that have a value (\<^verbatim>\<open>field.is_struct and field.val != None\<close>),
  in field order, and the nested records of a record.
\<close>

fun nested :: "heap \<Rightarrow> field list \<Rightarrow> addr list" where
  "nested h [] = []"
| "nested h (Prim t v # flds) = nested h flds"
| "nested h (Ref a # flds) = (if val (h a) \<noteq> None then a # nested h flds else nested h flds)"

definition children :: "heap \<Rightarrow> addr \<Rightarrow> addr list" where
  "children h a = (case val (h a) of None \<Rightarrow> [] | Some flds \<Rightarrow> nested h flds)"

definition edges :: "heap \<Rightarrow> (addr \<times> addr) set" where
  "edges h = {(a, b). b \<in> set (children h a)}"

text \<open>
  The shape of a value tree: the identity of each record and, in field order, the trees of
  its nested records. \<open>is_tree h t\<close> says that the objects reachable from the root of \<open>t\<close>
  in the store \<open>h\<close> unfold to \<open>t\<close>; a store with a cycle through the root has no such \<open>t\<close>.
  The records of the tree are distinct objects when \<open>distinct (nodes t)\<close>.
\<close>

datatype vtree = Node addr "vtree list"

fun root_of :: "vtree \<Rightarrow> addr" where
  "root_of (Node a ts) = a"

fun subtrees :: "vtree \<Rightarrow> vtree list" where
  "subtrees (Node a ts) = ts"

fun nodes :: "vtree \<Rightarrow> addr list" where
  "nodes (Node a ts) = a # concat (map nodes ts)"

fun is_tree :: "heap \<Rightarrow> vtree \<Rightarrow> bool" where
  "is_tree h (Node a ts) =
     (val (h a) \<noteq> None \<and> children h a = map root_of ts \<and> (\<forall>t \<in> set ts. is_tree h t))"

text \<open>
  The traversal as the spec words it, on the shape of the tree: a work queue of trees; pop
  the front, give it the current cumulative offset, put its nested records at the back in
  field order, advance the offset by the size \<open>sz\<close> of the popped record. The result lists
  the records in pop order, each with the offset it was given.
\<close>

function bfs_offsets :: "(addr \<Rightarrow> int) \<Rightarrow> vtree list \<Rightarrow> int \<Rightarrow> (addr \<times> int) list" where
  "bfs_offsets sz [] offs = []"
| "bfs_offsets sz (t # queue) offs =
     (root_of t, offs) # bfs_offsets sz (queue @ subtrees t) (offs + sz (root_of t))"
  by pat_completeness auto
termination
proof (relation "measure (\<lambda>(sz, ts, offs). size_list size ts)")
  fix t :: vtree and queue :: "vtree list" and sz :: "addr \<Rightarrow> int" and offs :: int
  have "size_list size (subtrees t) < size t"
    by (cases t) simp
  then show "((sz, queue @ subtrees t, offs + sz (root_of t)), (sz, t # queue, offs))
      \<in> measure (\<lambda>(sz, ts, offs). size_list size ts)"
    by simp
qed simp

text \<open>
  Breadth-first order by generations: the roots of a forest, then the records nested in
  them, and so on.
\<close>

function level_order :: "vtree list \<Rightarrow> addr list" where
  "level_order [] = []"
| "level_order (t # ts) = map root_of (t # ts) @ level_order (concat (map subtrees (t # ts)))"
  by pat_completeness auto
termination
proof (relation "measure (size_list size)")
  fix t :: vtree and ts :: "vtree list"
  have sub: "size_list size (subtrees u) < size u" for u :: vtree
    by (cases u) simp
  have "size_list size (concat (map subtrees us)) \<le> size_list size us" for us :: "vtree list"
  proof (induction us)
    case Nil
    show ?case by simp
  next
    case (Cons u us)
    with sub[of u] show ?case by simp
  qed
  with sub[of t] show "(concat (map subtrees (t # ts)), t # ts) \<in> measure (size_list size)"
    by (simp add: add_less_le_mono less_SucI)
qed simp

text \<open>The store after the offsets of a list of records have been assigned, in list order.\<close>

fun set_offsets :: "heap \<Rightarrow> (addr \<times> int) list \<Rightarrow> heap" where
  "set_offsets h [] = h"
| "set_offsets h ((a, off) # ps) = set_offsets (h(a := (h a)\<lparr>offset := Some off\<rparr>)) ps"

text \<open>The size of a record as the flattener reads it.\<close>

definition size_of :: "heap \<Rightarrow> addr \<Rightarrow> int" where
  "size_of h a = c_size (struct_def (h a))"

text \<open>
  Modelled from the spec: the invariants that the constructors of \<^verbatim>\<open>gen_settings_types_v2\<close>
  (not in the sources at hand) establish for a record. \<^verbatim>\<open>c_size\<close> of a struct definition
  is the sum of the widths of its fields, and a record binds one value to each field of its
  definition, packed in the format of that field.
\<close>

definition well_formed :: "heap \<Rightarrow> addr \<Rightarrow> bool" where
  "well_formed h a =
     (c_size (struct_def (h a)) =
        sum_list (map (\<lambda>v. int (calcsize (pack_format (var_typ v)))) (vars (struct_def (h a))))
      \<and> (case val (h a) of
           None \<Rightarrow> True
         | Some flds \<Rightarrow>
             map (\<lambda>f. pack_format (field_typ h f)) flds =
             map (\<lambda>v. pack_format (var_typ v)) (vars (struct_def (h a)))))"

text \<open>The sum of the widths of the fields of a record, in bytes.\<close>

definition packed_size :: "heap \<Rightarrow> addr \<Rightarrow> int" where
  "packed_size h a =
     (case val (h a) of
        None \<Rightarrow> 0
      | Some flds \<Rightarrow> sum_list (map (\<lambda>f. int (calcsize (pack_format (field_typ h f)))) flds))"

text \<open>The bytes of one record, as \<^verbatim>\<open>get_cpp_data_for_struct_val\<close> writes them.\<close>

definition record_bytes :: "heap \<Rightarrow> addr \<Rightarrow> byte list" where
  "record_bytes h a =
     (case get_cpp_data_for_struct_val h a 0 of
        Inl e \<Rightarrow> []
      | Inr (ls, sz) \<Rightarrow> emitted_bytes ls)"

section \<open>Example stores\<close>

definition T_u32 :: Type where
  "T_u32 = \<lparr>name = ''version'', c_type = ''uint32_t'', pack_format = Fmt_I\<rparr>"

definition T_u8 :: Type where
  "T_u8 = \<lparr>name = ''flag'', c_type = ''uint8_t'', pack_format = Fmt_B\<rparr>"

definition T_ptr :: Type where
  "T_ptr = \<lparr>name = ''child'', c_type = ''Ptr<C>'', pack_format = Fmt_Q\<rparr>"

definition S_def :: StructDef where
  "S_def = \<lparr>struct_name = ''S'',
            vars = [\<lparr>var_name = ''version'', var_typ = T_u32\<rparr>,
                    \<lparr>var_name = ''count'', var_typ = T_u32\<rparr>,
                    \<lparr>var_name = ''child'', var_typ = T_ptr\<rparr>],
            c_size = 16\<rparr>"

definition C_def :: StructDef where
  "C_def = \<lparr>struct_name = ''C'',
            vars = [\<lparr>var_name = ''version'', var_typ = T_u32\<rparr>,
                    \<lparr>var_name = ''flag'', var_typ = T_u8\<rparr>],
            c_size = 5\<rparr>"

text \<open>A struct value without fields: \<^verbatim>\<open>StructVal(C_def, None)\<close>, the null reference.\<close>

definition null_C :: StructVal where
  "null_C = \<lparr>s_typ = T_ptr, struct_def = C_def, val = None, offset = None\<rparr>"

definition new_S :: "int \<Rightarrow> addr \<Rightarrow> StructVal" where
  "new_S n child = \<lparr>s_typ = T_ptr, struct_def = S_def,
     val = Some [Prim T_u32 (IntV 33751040), Prim T_u32 (IntV n), Ref child], offset = None\<rparr>"

definition new_C :: StructVal where
  "new_C = \<lparr>s_typ = T_ptr, struct_def = C_def,
     val = Some [Prim T_u32 (IntV 33751040), Prim T_u8 (IntV 1)], offset = None\<rparr>"

text \<open>The end-to-end example of the spec: a record \<open>S\<close> at 0 with a nested record \<open>C\<close> at 1.\<close>

definition example_heap :: heap where
  "example_heap = (\<lambda>a. null_C)(0 := new_S 5 1, 1 := new_C)"

text \<open>The same record \<open>S\<close> with a null reference in its \<open>child\<close> field.\<close>

definition null_child_heap :: heap where
  "null_child_heap = (\<lambda>a. null_C)(0 := new_S 5 1)"

text \<open>The same tree with a \<open>count\<close> that does not fit 32 bits.\<close>

definition big_count_heap :: heap where
  "big_count_heap = (\<lambda>a. null_C)(0 := new_S 4294967296 1, 1 := new_C)"

text \<open>Record \<open>A\<close> at 0 refers to record \<open>B\<close> at 1, and \<open>B\<close> refers to \<open>A\<close>.\<close>

definition cyclic_heap :: heap where
  "cyclic_heap = (\<lambda>a. null_C)(0 := new_S 5 1, 1 := new_S 6 0)"

text \<open>A record that refers to itself.\<close>

definition self_heap :: heap where
  "self_heap = (\<lambda>a. null_C)(0 := new_S 5 0)"

text \<open>A top-level record whose first field is named \<open>version\<close> and has one byte.\<close>

definition B_def :: StructDef where
  "B_def = \<lparr>struct_name = ''B'',
            vars = [\<lparr>var_name = ''version'', var_typ = T_u8\<rparr>],
            c_size = 1\<rparr>"

definition byte_version_heap :: heap where
  "byte_version_heap = (\<lambda>a. null_C)
     (0 := \<lparr>s_typ = T_ptr, struct_def = B_def, val = Some [Prim T_u8 (IntV 2)], offset = None\<rparr>)"

text \<open>A top-level record whose first field is not named \<open>version\<close>.\<close>

definition F_def :: StructDef where
  "F_def = \<lparr>struct_name = ''F'',
            vars = [\<lparr>var_name = ''flag'', var_typ = T_u8\<rparr>],
            c_size = 1\<rparr>"

definition no_version_heap :: heap where
  "no_version_heap = (\<lambda>a. null_C)
     (0 := \<lparr>s_typ = T_ptr, struct_def = F_def, val = Some [Prim T_u8 (IntV 1)], offset = None\<rparr>)"

text \<open>
  A top-level record \<open>D\<close> at 0 whose two reference fields hold the same record \<open>C\<close> at 1:
  no cycle, but one record nested twice.
\<close>

definition D_def :: StructDef where
  "D_def = \<lparr>struct_name = ''D'',
            vars = [\<lparr>var_name = ''version'', var_typ = T_u32\<rparr>,
                    \<lparr>var_name = ''first'', var_typ = T_ptr\<rparr>,
                    \<lparr>var_name = ''second'', var_typ = T_ptr\<rparr>],
            c_size = 20\<rparr>"

definition shared_heap :: heap where
  "shared_heap = (\<lambda>a. null_C)
     (0 := \<lparr>s_typ = T_ptr, struct_def = D_def,
             val = Some [Prim T_u32 (IntV 33751040), Ref 1, Ref 1], offset = None\<rparr>,
      1 := new_C)"

text \<open>
  A record \<open>N\<close> whose \<open>child\<close> field is a null reference and whose \<open>count\<close>, packed after it,
  does not fit 32 bits.
\<close>

definition N_def :: StructDef where
  "N_def = \<lparr>struct_name = ''N'',
            vars = [\<lparr>var_name = ''version'', var_typ = T_u32\<rparr>,
                    \<lparr>var_name = ''child'', var_typ = T_ptr\<rparr>,
                    \<lparr>var_name = ''count'', var_typ = T_u32\<rparr>],
            c_size = 16\<rparr>"

definition null_then_big_heap :: heap where
  "null_then_big_heap = (\<lambda>a. null_C)
     (0 := \<lparr>s_typ = T_ptr, struct_def = N_def,
             val = Some [Prim T_u32 (IntV 33751040), Ref 1, Prim T_u32 (IntV 4294967296)],
             offset = None\<rparr>)"

text \<open>
  The store \<open>null_child_heap\<close> after \<^verbatim>\<open>flatten_values_tree\<close> has been called on the null
  reference at 1 itself: the call assigns offset 0 to it before it fails on the missing field
  list.
\<close>

definition stale_heap :: heap where
  "stale_heap = null_child_heap(1 := (null_child_heap 1)\<lparr>offset := Some 0\<rparr>)"

section \<open>Stores with the same structure\<close>

text \<open>
  Two stores have the same structure when every object has the same \<^verbatim>\<open>typ\<close>,
  \<^verbatim>\<open>struct_def\<close> and field list in both; only \<^verbatim>\<open>offset\<close> attributes may differ. They have
  the same null offsets when the objects without a field list have the same \<^verbatim>\<open>offset\<close>.
\<close>

definition same_structure :: "heap \<Rightarrow> heap \<Rightarrow> bool" where
  "same_structure g h =
     (\<forall>a. s_typ (g a) = s_typ (h a) \<and> struct_def (g a) = struct_def (h a) \<and> val (g a) = val (h a))"

definition same_null_offsets :: "heap \<Rightarrow> heap \<Rightarrow> bool" where
  "same_null_offsets g h = (\<forall>a. val (h a) = None \<longrightarrow> offset (g a) = offset (h a))"

section \<open>The flattener on value trees\<close>

lemma enqueue_nested: "enqueue h flds left = Inr (left @ nested h flds)"
  by (induction h flds left rule: enqueue.induct) (auto split: field.splits)

lemma nested_upd [simp]: "nested (h(a := (h a)\<lparr>offset := x\<rparr>)) flds = nested h flds"
  by (induction h flds rule: nested.induct) auto

lemma children_upd [simp]: "children (h(a := (h a)\<lparr>offset := x\<rparr>)) b = children h b"
  by (simp add: children_def split: option.splits)

lemma edges_upd [simp]: "edges (h(a := (h a)\<lparr>offset := x\<rparr>)) = edges h"
  by (simp add: edges_def)

lemma is_tree_upd [simp]: "is_tree (h(a := (h a)\<lparr>offset := x\<rparr>)) t = is_tree h t"
proof (induction t)
  case (Node b ts)
  have "(\<forall>t \<in> set ts. is_tree (h(a := (h a)\<lparr>offset := x\<rparr>)) t) = (\<forall>t \<in> set ts. is_tree h t)"
    using Node.IH by blast
  then show ?case by (simp del: fun_upd_apply) simp
qed

lemma size_of_upd [simp]: "size_of (h(a := (h a)\<lparr>offset := x\<rparr>)) = size_of h"
  by (simp add: size_of_def fun_eq_iff)

lemma flatten_loop_forest:
  "\<forall>t \<in> set ts. is_tree h t \<Longrightarrow> sz = size_of h \<Longrightarrow>
   flatten_loop h (map root_of ts) offs vals =
     Some (Inr (vals @ map fst (bfs_offsets sz ts offs)), set_offsets h (bfs_offsets sz ts offs))"
proof (induction sz ts offs arbitrary: h vals rule: bfs_offsets.induct)
  case (1 sz offs)
  show ?case by (subst flatten_loop.simps) simp
next
  case (2 sz t queue offs)
  obtain a ts where t: "t = Node a ts" by (cases t)
  let ?h = "h(a := (h a)\<lparr>offset := Some offs\<rparr>)"
  from 2(2) t obtain flds where flds: "val (h a) = Some flds" and ch: "children h a = map root_of ts"
    by auto
  have nst: "nested h flds = map root_of ts"
    using ch flds by (simp add: children_def)
  have trees: "\<forall>t \<in> set (queue @ subtrees t). is_tree ?h t"
    using 2(2) t by auto
  have sz: "sz = size_of ?h"
    using 2(3) by simp
  have "flatten_loop h (map root_of (t # queue)) offs vals =
          flatten_loop ?h (map root_of (queue @ subtrees t)) (offs + sz (root_of t)) (vals @ [a])"
    by (subst flatten_loop.simps) (simp add: t flds nst enqueue_nested Let_def 2(3) size_of_def)
  also have "\<dots> = Some (Inr ((vals @ [a]) @ map fst (bfs_offsets sz (queue @ subtrees t) (offs + sz (root_of t)))),
                 set_offsets ?h (bfs_offsets sz (queue @ subtrees t) (offs + sz (root_of t))))"
    by (rule 2(1)[OF trees sz])
  also have "\<dots> = Some (Inr (vals @ map fst (bfs_offsets sz (t # queue) offs)),
                 set_offsets h (bfs_offsets sz (t # queue) offs))"
    by (simp add: t)
  finally show ?case .
qed

lemma flatten_tree:
  assumes "is_tree h t" "vars (struct_def (h (root_of t))) = v0 # vs" "var_name v0 = ''version''"
  shows "flatten_values_tree h (Ref (root_of t)) =
     Some (Inr (map fst (bfs_offsets (size_of h) [t] 0)), set_offsets h (bfs_offsets (size_of h) [t] 0))"
  using flatten_loop_forest[of "[t]" h "size_of h" 0 "[]"] assms
  by (simp add: flatten_values_tree_def)

lemma bfs_offsets_mset:
  "mset (map fst (bfs_offsets sz ts offs)) = mset (concat (map nodes ts))"
proof (induction sz ts offs rule: bfs_offsets.induct)
  case (1 sz offs)
  show ?case by simp
next
  case (2 sz t queue offs)
  then show ?case by (cases t) simp
qed

lemma bfs_offsets_hd:
  "bfs_offsets sz ts offs \<noteq> [] \<Longrightarrow> snd (hd (bfs_offsets sz ts offs)) = offs"
  by (cases ts) simp_all

lemma bfs_offsets_step:
  "Suc i < length (bfs_offsets sz ts offs) \<Longrightarrow>
   snd (bfs_offsets sz ts offs ! Suc i) =
     snd (bfs_offsets sz ts offs ! i) + sz (fst (bfs_offsets sz ts offs ! i))"
proof (induction sz ts offs arbitrary: i rule: bfs_offsets.induct)
  case (1 sz offs)
  then show ?case by simp
next
  case (2 sz t queue offs)
  let ?rest = "bfs_offsets sz (queue @ subtrees t) (offs + sz (root_of t))"
  show ?case
  proof (cases i)
    case 0
    with 2(2) have "?rest \<noteq> []" by auto
    then have "snd (hd ?rest) = offs + sz (root_of t)" by (rule bfs_offsets_hd)
    with \<open>?rest \<noteq> []\<close> 0 show ?thesis by (simp add: hd_conv_nth)
  next
    case (Suc j)
    with 2(2) have "Suc j < length ?rest" by simp
    from 2(1)[OF this] Suc show ?thesis by simp
  qed
qed

lemma set_offsets_fields [simp]:
  "s_typ (set_offsets h ps a) = s_typ (h a)"
  "struct_def (set_offsets h ps a) = struct_def (h a)"
  "val (set_offsets h ps a) = val (h a)"
  by (induction h ps rule: set_offsets.induct) simp_all

lemma set_offsets_other: "a \<notin> fst ` set ps \<Longrightarrow> set_offsets h ps a = h a"
  by (induction h ps rule: set_offsets.induct) auto

lemma set_offsets_offset:
  "distinct (map fst ps) \<Longrightarrow> (a, off) \<in> set ps \<Longrightarrow> offset (set_offsets h ps a) = Some off"
proof (induction h ps rule: set_offsets.induct)
  case (1 h)
  then show ?case by simp
next
  case (2 h b off' ps)
  show ?case
  proof (cases "(a, off) = (b, off')")
    case True
    with 2(2) have "a \<notin> fst ` set ps" by auto
    then show ?thesis using True by (simp add: set_offsets_other)
  next
    case False
    from 2(2) have d: "distinct (map fst ps)" by simp
    from False 2(3) have m: "(a, off) \<in> set ps" by auto
    show ?thesis unfolding set_offsets.simps by (rule 2(1)[OF d m])
  qed
qed

lemma bfs_offsets_order:
  "map fst (bfs_offsets sz ts offs) = map fst (bfs_offsets (\<lambda>a. 0) ts 0)"
  by (induction sz ts offs rule: bfs_offsets.induct) simp_all

lemma bfs_offsets_generation:
  "map fst (bfs_offsets (\<lambda>a. 0) (ts @ us) 0) =
     map root_of ts @ map fst (bfs_offsets (\<lambda>a. 0) (us @ concat (map subtrees ts)) 0)"
  by (induction ts arbitrary: us) simp_all

lemma bfs_offsets_level_order: "map fst (bfs_offsets sz ts offs) = level_order ts"
proof -
  have "map fst (bfs_offsets (\<lambda>a. 0) ts 0) = level_order ts"
  proof (induction ts rule: level_order.induct)
    case 1
    show ?case by simp
  next
    case (2 t ts)
    have "map fst (bfs_offsets (\<lambda>a. 0) ((t # ts) @ []) 0) =
            map root_of (t # ts) @ map fst (bfs_offsets (\<lambda>a. 0) ([] @ concat (map subtrees (t # ts))) 0)"
      by (rule bfs_offsets_generation)
    with 2 show ?case by simp
  qed
  then show ?thesis by (simp add: bfs_offsets_order[of sz ts offs])
qed

text \<open>
  C1. On a value tree in the store whose root passes the check of its first field,
  \<^verbatim>\<open>flatten_values_tree\<close> returns, and what it returns is the work-queue traversal of the
  tree: the records in pop order, which is breadth-first order, and the store in which each
  popped record has been given the cumulative offset, starting at 0 and advanced by the
  \<^verbatim>\<open>c_size\<close> of each popped record.
\<close>

theorem flatten_values_tree_breadth_first:
  assumes "is_tree h t"
    and "vars (struct_def (h (root_of t))) = v0 # vs"
    and "var_name v0 = ''version''"
  shows "flatten_values_tree h (Ref (root_of t)) =
           Some (Inr (map fst (bfs_offsets (size_of h) [t] 0)),
                 set_offsets h (bfs_offsets (size_of h) [t] 0))
         \<and> map fst (bfs_offsets (size_of h) [t] 0) = level_order [t]"
  using flatten_tree[OF assms] bfs_offsets_level_order by simp

lemma example_is_tree: "is_tree example_heap (Node 0 [Node 1 []])"
  by (simp add: example_heap_def children_def new_S_def new_C_def null_C_def)

lemma example_vars:
  "vars (struct_def (example_heap (root_of (Node 0 [Node 1 []])))) =
     \<lparr>var_name = ''version'', var_typ = T_u32\<rparr> #
     [\<lparr>var_name = ''count'', var_typ = T_u32\<rparr>, \<lparr>var_name = ''child'', var_typ = T_ptr\<rparr>]"
  by (simp add: example_heap_def new_S_def S_def_def)

lemma example_bfs:
  "bfs_offsets (size_of example_heap) [Node 0 [Node 1 []]] 0 = [(0, 0), (1, 16)]"
  by (simp add: size_of_def example_heap_def new_S_def new_C_def S_def_def C_def_def)

theorem flatten_values_tree_breadth_first_witness:
  "flatten_values_tree example_heap (Ref 0) =
     Some (Inr [0, 1], set_offsets example_heap [(0, 0), (1, 16)])
   \<and> [0, 1] = level_order [Node 0 [Node 1 []]]"
  using flatten_values_tree_breadth_first[OF example_is_tree example_vars, unfolded example_bfs]
  by simp

lemma flatten_tree_offsets:
  assumes "is_tree h t" "distinct (nodes t)"
    and "vars (struct_def (h (root_of t))) = v0 # vs" "var_name v0 = ''version''"
  defines "ps \<equiv> bfs_offsets (size_of h) [t] 0"
  shows "flatten_values_tree h (Ref (root_of t)) = Some (Inr (map fst ps), set_offsets h ps)"
    and "distinct (map fst ps)"
    and "ps \<noteq> []" and "hd (map fst ps) = root_of t"
    and "i < length ps \<Longrightarrow> offset (set_offsets h ps (map fst ps ! i)) = Some (snd (ps ! i))"
    and "snd (ps ! 0) = 0"
proof -
  show "flatten_values_tree h (Ref (root_of t)) = Some (Inr (map fst ps), set_offsets h ps)"
    unfolding ps_def using assms(1,3,4) by (rule flatten_tree)
  have "mset (map fst ps) = mset (nodes t)"
    unfolding ps_def by (simp only: bfs_offsets_mset) simp
  with assms(2) show d: "distinct (map fst ps)"
    by (metis mset_eq_imp_distinct_iff)
  show "ps \<noteq> []" "hd (map fst ps) = root_of t" "snd (ps ! 0) = 0"
    unfolding ps_def by simp_all
  show "offset (set_offsets h ps (map fst ps ! i)) = Some (snd (ps ! i))" if "i < length ps"
  proof -
    from that have "(fst (ps ! i), snd (ps ! i)) \<in> set ps" by simp
    from set_offsets_offset[OF d this] that show ?thesis by simp
  qed
qed



section \<open>The version codec\<close>

lemma or_push_bit_add:
  fixes x y :: int
  assumes "0 \<le> y" "y < 2 ^ n"
  shows "push_bit n x OR y = push_bit n x + y"
proof -
  have t: "take_bit n y = y" using assms by (simp add: take_bit_int_eq_self)
  then have "push_bit n x OR y = concat_bit n y x"
    by (simp add: concat_bit_def or.commute)
  then show ?thesis using t by (simp add: concat_bit_eq)
qed

lemma radix_less:
  fixes hi1 lo1 hi2 lo2 R :: int
  assumes "0 \<le> lo1" "lo1 < R" "0 \<le> lo2" "lo2 < R"
  shows "(hi1 * R + lo1 < hi2 * R + lo2) = (hi1 < hi2 \<or> (hi1 = hi2 \<and> lo1 < lo2))"
proof (cases "hi1 < hi2")
  case True
  then have "hi1 + 1 \<le> hi2" by simp
  then have "(hi1 + 1) * R \<le> hi2 * R" using assms by (intro mult_right_mono) auto
  then show ?thesis using True assms by (simp add: algebra_simps)
next
  case False
  show ?thesis
  proof (cases "hi1 = hi2")
    case True then show ?thesis by simp
  next
    case False
    with \<open>\<not> hi1 < hi2\<close> have "hi2 + 1 \<le> hi1" by simp
    then have "(hi2 + 1) * R \<le> hi1 * R" using assms by (intro mult_right_mono) auto
    then show ?thesis using False \<open>\<not> hi1 < hi2\<close> assms by (simp add: algebra_simps)
  qed
qed

lemma radix_eq:
  fixes hi1 lo1 hi2 lo2 R :: int
  assumes "0 \<le> lo1" "lo1 < R" "0 \<le> lo2" "lo2 < R"
  shows "(hi1 * R + lo1 = hi2 * R + lo2) = (hi1 = hi2 \<and> lo1 = lo2)"
  using radix_less[OF assms, of hi1 hi2] radix_less[OF assms(3,4,1,2), of hi2 hi1] by auto

lemma encode_sum:
  assumes "version_component M" "version_component m" "version_component p" "version_component b"
  shows "push_bit 24 M OR push_bit 16 m OR push_bit 8 p OR b = ((M * 256 + m) * 256 + p) * 256 + b"
proof -
  have 1: "push_bit 8 p OR b = p * 256 + b"
    using or_push_bit_add[of b 8 p] assms by (simp add: version_component_def push_bit_eq_mult)
  have 2: "push_bit 16 m OR (p * 256 + b) = m * 65536 + (p * 256 + b)"
    using or_push_bit_add[of "p * 256 + b" 16 m] assms
    by (simp add: version_component_def push_bit_eq_mult)
  have 3: "push_bit 24 M OR (m * 65536 + (p * 256 + b)) = M * 16777216 + (m * 65536 + (p * 256 + b))"
    using or_push_bit_add[of "m * 65536 + (p * 256 + b)" 24 M] assms
    by (simp add: version_component_def push_bit_eq_mult)
  show ?thesis
    by (simp only: 1 2 3) (simp add: algebra_simps)
qed

lemma sum_less:
  assumes "version_component M1" "version_component m1" "version_component p1" "version_component b1"
    and "version_component M2" "version_component m2" "version_component p2" "version_component b2"
  shows "(((M1 * 256 + m1) * 256 + p1) * 256 + b1 < ((M2 * 256 + m2) * 256 + p2) * 256 + b2)
           = version_less (M1, m1, p1, b1) (M2, m2, p2, b2)"
    and "(((M1 * 256 + m1) * 256 + p1) * 256 + b1 = ((M2 * 256 + m2) * 256 + p2) * 256 + b2)
           = ((M1, m1, p1, b1) = (M2, m2, p2, b2))"
proof -
  have a: "(((M1 * 256 + m1) * 256 + p1) * 256 + b1 < ((M2 * 256 + m2) * 256 + p2) * 256 + b2)
      = ((M1 * 256 + m1) * 256 + p1 < (M2 * 256 + m2) * 256 + p2
          \<or> ((M1 * 256 + m1) * 256 + p1 = (M2 * 256 + m2) * 256 + p2 \<and> b1 < b2))"
    using assms by (intro radix_less) (simp_all add: version_component_def)
  have b: "((M1 * 256 + m1) * 256 + p1 < (M2 * 256 + m2) * 256 + p2)
      = (M1 * 256 + m1 < M2 * 256 + m2 \<or> (M1 * 256 + m1 = M2 * 256 + m2 \<and> p1 < p2))"
    using assms by (intro radix_less) (simp_all add: version_component_def)
  have c: "(M1 * 256 + m1 < M2 * 256 + m2) = (M1 < M2 \<or> (M1 = M2 \<and> m1 < m2))"
    using assms by (intro radix_less) (simp_all add: version_component_def)
  have d: "((M1 * 256 + m1) * 256 + p1 = (M2 * 256 + m2) * 256 + p2)
      = (M1 * 256 + m1 = M2 * 256 + m2 \<and> p1 = p2)"
    using assms by (intro radix_eq) (simp_all add: version_component_def)
  have e: "(M1 * 256 + m1 = M2 * 256 + m2) = (M1 = M2 \<and> m1 = m2)"
    using assms by (intro radix_eq) (simp_all add: version_component_def)
  have f: "(((M1 * 256 + m1) * 256 + p1) * 256 + b1 = ((M2 * 256 + m2) * 256 + p2) * 256 + b2)
      = ((M1 * 256 + m1) * 256 + p1 = (M2 * 256 + m2) * 256 + p2 \<and> b1 = b2)"
    using assms by (intro radix_eq) (simp_all add: version_component_def)
  show "(((M1 * 256 + m1) * 256 + p1) * 256 + b1 < ((M2 * 256 + m2) * 256 + p2) * 256 + b2)
           = version_less (M1, m1, p1, b1) (M2, m2, p2, b2)"
    unfolding a b c d e by auto
  show "(((M1 * 256 + m1) * 256 + p1) * 256 + b1 = ((M2 * 256 + m2) * 256 + p2) * 256 + b2)
           = ((M1, m1, p1, b1) = (M2, m2, p2, b2))"
    unfolding f d e by auto
qed

text \<open>
  C5. For components in the range 0 to 255, the encoded version is
  \<^verbatim>\<open>(major<<24) | (minor<<16) | (patch<<8) | build\<close>, and two encoded versions compare as
  integers the way their component tuples compare lexicographically, major first.
\<close>

theorem encode_order:
  assumes "version_component M1" "version_component m1" "version_component p1" "version_component b1"
    and "version_component M2" "version_component m2" "version_component p2" "version_component b2"
  shows "\<exists>x y. encode M1 m1 p1 b1 = Inr x \<and> encode M2 m2 p2 b2 = Inr y
           \<and> x = (push_bit 24 M1 OR push_bit 16 m1 OR push_bit 8 p1 OR b1)
           \<and> (x < y) = version_less (M1, m1, p1, b1) (M2, m2, p2, b2)
           \<and> (x = y) = ((M1, m1, p1, b1) = (M2, m2, p2, b2))"
  using assms sum_less[OF assms]
  by (simp only: encode_def encode_sum[OF assms(1-4)] encode_sum[OF assms(5-8)] simp_thms if_True)
     simp

theorem encode_order_witness:
  "(\<exists>x y. encode 2 2 1 0 = Inr x \<and> encode 2 1 9 9 = Inr y \<and> y < x)
   \<and> (\<exists>x y. encode 2 0 0 0 = Inr x \<and> encode 2 0 0 1 = Inr y \<and> x < y)"
proof -
  have c: "version_component 0" "version_component 1" "version_component 2" "version_component 9"
    by (simp_all add: version_component_def)
  from encode_order[OF c(3,2,4,4) c(3,3,2,1)] encode_order[OF c(3,1,1,1) c(3,1,1,2)]
  show ?thesis by auto
qed

section \<open>Runs of the loop that return\<close>

lemma flatten_loop_Nil: "flatten_loop h [] offs vals = Some (Inr vals, h)"
  by (subst flatten_loop.simps) simp

lemma flatten_loop_Cons:
  "flatten_loop h (v # left) offs vals =
     (case val (h v) of
        None \<Rightarrow> Some (Inl TypeError, h(v := (h v)\<lparr>offset := Some offs\<rparr>))
      | Some flds \<Rightarrow>
          flatten_loop (h(v := (h v)\<lparr>offset := Some offs\<rparr>)) (left @ nested h flds)
            (offs + c_size (struct_def (h v))) (vals @ [v]))"
  by (subst flatten_loop.simps) (simp add: Let_def enqueue_nested split: option.splits)

lemma flatten_loop_induct [consumes 1, case_names Nil TypeError Step]:
  assumes run: "flatten_loop h left offs vals = Some y"
    and nil: "\<And>h offs vals. P h [] offs vals (Inr vals, h)"
    and err: "\<And>h v left offs vals. val (h v) = None \<Longrightarrow>
                P h (v # left) offs vals (Inl TypeError, h(v := (h v)\<lparr>offset := Some offs\<rparr>))"
    and step: "\<And>h v left offs vals flds y. val (h v) = Some flds \<Longrightarrow>
                flatten_loop (h(v := (h v)\<lparr>offset := Some offs\<rparr>)) (left @ nested h flds)
                  (offs + c_size (struct_def (h v))) (vals @ [v]) = Some y \<Longrightarrow>
                P (h(v := (h v)\<lparr>offset := Some offs\<rparr>)) (left @ nested h flds)
                  (offs + c_size (struct_def (h v))) (vals @ [v]) y \<Longrightarrow>
                P h (v # left) offs vals y"
  shows "P h left offs vals y"
proof -
  have "flatten_loop h left offs vals = Some y \<and> P h left offs vals y"
  proof (rule flatten_loop.raw_induct
      [where P = "\<lambda>h left offs vals y. flatten_loop h left offs vals = Some y \<and> P h left offs vals y",
       OF _ run])
    fix f :: "heap \<Rightarrow> addr list \<Rightarrow> int \<Rightarrow> addr list \<Rightarrow> ((error + addr list) \<times> heap) option"
    fix h left offs vals y
    assume IH: "\<And>h left offs vals y. f h left offs vals = Some y \<Longrightarrow>
                  flatten_loop h left offs vals = Some y \<and> P h left offs vals y"
    assume body: "(case left of
        [] \<Rightarrow> Some (Inr vals, h)
      | v # left' \<Rightarrow>
          (let h' = h(v := (h v)\<lparr>offset := Some offs\<rparr>) in
           case val (h' v) of
             None \<Rightarrow> Some (Inl TypeError, h')
           | Some flds \<Rightarrow>
               (case enqueue h' flds left' of
                  Inl e \<Rightarrow> Some (Inl e, h')
                | Inr left'' \<Rightarrow>
                    f h' left'' (offs + c_size (struct_def (h' v))) (vals @ [v])))) = Some y"
    show "flatten_loop h left offs vals = Some y \<and> P h left offs vals y"
    proof (cases left)
      case Nil
      with body have "y = (Inr vals, h)" by simp
      with Nil nil show ?thesis by (simp add: flatten_loop_Nil)
    next
      case (Cons v left')
      show ?thesis
      proof (cases "val (h v)")
        case None
        with body Cons have "y = (Inl TypeError, h(v := (h v)\<lparr>offset := Some offs\<rparr>))"
          by (simp add: Let_def)
        with None Cons err[where h=h and v=v and left=left' and offs=offs and vals=vals, OF None] show ?thesis by (simp add: flatten_loop_Cons)
      next
        case (Some flds)
        with body Cons have "f (h(v := (h v)\<lparr>offset := Some offs\<rparr>)) (left' @ nested h flds)
            (offs + c_size (struct_def (h v))) (vals @ [v]) = Some y"
          by (simp add: Let_def enqueue_nested)
        from IH[OF this] Some Cons step[where h=h and v=v and left=left' and offs=offs and vals=vals and y=y, OF Some] show ?thesis
          by (simp add: flatten_loop_Cons)
      qed
    qed
  qed
  then show ?thesis ..
qed



section \<open>What the flattener changes\<close>

lemma children_edges: "b \<in> set (children h a) \<Longrightarrow> (a, b) \<in> edges h"
  by (simp add: edges_def)

lemma flatten_loop_frame:
  assumes "flatten_loop h left offs vals = Some y"
  shows "(\<forall>a. s_typ (snd y a) = s_typ (h a) \<and> struct_def (snd y a) = struct_def (h a)
              \<and> val (snd y a) = val (h a))
         \<and> (\<forall>vs. fst y = Inr vs \<longrightarrow>
               (\<exists>ws. vs = vals @ ws \<and> (\<forall>a. a \<notin> set ws \<longrightarrow> snd y a = h a)
                     \<and> set ws \<subseteq> (edges h)\<^sup>* `` set left))"
  using assms
proof (induction rule: flatten_loop_induct)
  case (Nil h offs vals)
  show ?case by simp
next
  case (TypeError h v left offs vals)
  show ?case by simp
next
  case (Step h v left offs vals flds y)
  let ?h = "h(v := (h v)\<lparr>offset := Some offs\<rparr>)"
  note IH = Step.IH[unfolded edges_upd]
  have fields: "\<forall>a. s_typ (snd y a) = s_typ (h a) \<and> struct_def (snd y a) = struct_def (h a)
          \<and> val (snd y a) = val (h a)"
    using IH by simp
  have "\<exists>ws. vs = vals @ ws \<and> (\<forall>a. a \<notin> set ws \<longrightarrow> snd y a = h a)
                 \<and> set ws \<subseteq> (edges h)\<^sup>* `` set (v # left)" if "fst y = Inr vs" for vs
  proof -
    from IH that obtain ws where ws: "vs = (vals @ [v]) @ ws"
      "\<forall>a. a \<notin> set ws \<longrightarrow> snd y a = ?h a"
      "set ws \<subseteq> (edges h)\<^sup>* `` set (left @ nested h flds)"
      by auto
    have "nested h flds = children h v" using Step.hyps(1) by (simp add: children_def)
    then have "set (nested h flds) \<subseteq> (edges h)\<^sup>* `` {v}"
      by (auto dest: children_edges)
    then have "(edges h)\<^sup>* `` set (left @ nested h flds) \<subseteq> (edges h)\<^sup>* `` set (v # left)"
      by (auto intro: rtrancl_trans)
    with ws(3) have sub: "set ws \<subseteq> (edges h)\<^sup>* `` set (v # left)" by blast
    have "vs = vals @ (v # ws)" using ws(1) by simp
    moreover have "\<forall>a. a \<notin> set (v # ws) \<longrightarrow> snd y a = h a" using ws(2) by simp
    moreover have "set (v # ws) \<subseteq> (edges h)\<^sup>* `` set (v # left)" using sub by auto
    ultimately show ?thesis by blast
  qed
  with fields show ?case by blast
qed


lemma flatten_loop_frame_pair:
  assumes "flatten_loop h left offs vals = Some (res, h')"
  shows "s_typ (h' a) = s_typ (h a)" "struct_def (h' a) = struct_def (h a)" "val (h' a) = val (h a)"
    and "res = Inr vs \<Longrightarrow> \<exists>ws. vs = vals @ ws \<and> (\<forall>a. a \<notin> set ws \<longrightarrow> h' a = h a)
                     \<and> set ws \<subseteq> (edges h)\<^sup>* `` set left"
proof -
  note f = flatten_loop_frame[OF assms, unfolded fst_conv snd_conv]
  from f show "s_typ (h' a) = s_typ (h a)" "struct_def (h' a) = struct_def (h a)"
    "val (h' a) = val (h a)" by blast+
  from f show "\<exists>ws. vs = vals @ ws \<and> (\<forall>a. a \<notin> set ws \<longrightarrow> h' a = h a)
                     \<and> set ws \<subseteq> (edges h)\<^sup>* `` set left" if "res = Inr vs"
    using that by blast
qed

lemma flatten_values_tree_cases:
  assumes "flatten_values_tree h (Ref r) = Some (res, h')"
  obtains (Index) "vars (struct_def (h r)) = []" "res = Inl IndexError" "h' = h"
    | (Assertion) v0 vs where "vars (struct_def (h r)) = v0 # vs" "''version'' \<noteq> var_name v0"
        "res = Inl AssertionError" "h' = h"
    | (Loop) v0 vs where "vars (struct_def (h r)) = v0 # vs" "''version'' = var_name v0"
        "flatten_loop h [r] 0 [] = Some (res, h')"
proof (cases "vars (struct_def (h r))")
  case Nil
  with assms have "res = Inl IndexError" "h' = h"
    by (simp_all add: flatten_values_tree_def)
  with Nil show ?thesis by (rule Index)
next
  case (Cons v0 vs)
  show ?thesis
  proof (cases "''version'' = var_name v0")
    case True
    with Cons assms have "flatten_loop h [r] 0 [] = Some (res, h')"
      by (simp add: flatten_values_tree_def)
    with Cons True show ?thesis by (rule Loop)
  next
    case False
    with Cons assms have "res = Inl AssertionError" "h' = h"
      by (simp_all add: flatten_values_tree_def)
    with Cons False show ?thesis by (rule Assertion)
  qed
qed

lemma flatten_values_tree_frame:
  assumes "flatten_values_tree h (Ref r) = Some (res, h')"
  shows "s_typ (h' a) = s_typ (h a)" "struct_def (h' a) = struct_def (h a)" "val (h' a) = val (h a)"
    and "res = Inr vals \<Longrightarrow> a \<notin> set vals \<Longrightarrow> h' a = h a"
    and "res = Inr vals \<Longrightarrow> set vals \<subseteq> (edges h)\<^sup>* `` {r}"
proof -
  show "s_typ (h' a) = s_typ (h a)"
    using assms by (cases rule: flatten_values_tree_cases) (simp_all add: flatten_loop_frame_pair(1))
  show "struct_def (h' a) = struct_def (h a)"
    using assms by (cases rule: flatten_values_tree_cases) (simp_all add: flatten_loop_frame_pair(2))
  show "val (h' a) = val (h a)"
    using assms by (cases rule: flatten_values_tree_cases) (simp_all add: flatten_loop_frame_pair(3))
  show "h' a = h a" if "res = Inr vals" "a \<notin> set vals"
    using assms
  proof (cases rule: flatten_values_tree_cases)
    case (Loop v0 vs)
    from flatten_loop_frame_pair(4)[OF Loop(3) that(1)] that(2) show ?thesis by auto
  qed (use that in simp_all)
  show "set vals \<subseteq> (edges h)\<^sup>* `` {r}" if "res = Inr vals"
    using assms
  proof (cases rule: flatten_values_tree_cases)
    case (Loop v0 vs)
    from flatten_loop_frame_pair(4)[OF Loop(3) that] show ?thesis by auto
  qed (use that in simp_all)
qed

text \<open>
  C10. Whenever \<^verbatim>\<open>flatten_values_tree\<close> returns, it has changed nothing but
  \<^verbatim>\<open>offset\<close> attributes: every object of the store has the \<^verbatim>\<open>typ\<close>, the
  \<^verbatim>\<open>struct_def\<close> and the field list (with its primitive values) it had before, an object
  that is not in the returned list is unchanged altogether, and every object of the returned
  list is the root or is reached from it through nested records of the input.
\<close>

theorem flatten_values_tree_only_offsets:
  assumes "flatten_values_tree h (Ref r) = Some (Inr vals, h')"
  shows "(\<forall>a. s_typ (h' a) = s_typ (h a) \<and> struct_def (h' a) = struct_def (h a)
              \<and> val (h' a) = val (h a))
         \<and> (\<forall>a. a \<notin> set vals \<longrightarrow> h' a = h a)
         \<and> set vals \<subseteq> (edges h)\<^sup>* `` {r}"
proof -
  note f = flatten_values_tree_frame[OF assms]
  have "\<forall>a. s_typ (h' a) = s_typ (h a) \<and> struct_def (h' a) = struct_def (h a)
              \<and> val (h' a) = val (h a)"
    using f(1,2,3) by simp
  moreover have "\<forall>a. a \<notin> set vals \<longrightarrow> h' a = h a"
    using f(4) by simp
  moreover have "set vals \<subseteq> (edges h)\<^sup>* `` {r}"
    using f(5) by simp
  ultimately show ?thesis by simp
qed

lemma example_flatten:
  "flatten_values_tree example_heap (Ref 0) =
     Some (Inr [0, 1], set_offsets example_heap [(0, 0), (1, 16)])"
  using flatten_tree[OF example_is_tree example_vars, unfolded example_bfs] by simp

theorem flatten_values_tree_only_offsets_witness:
  "\<exists>h'. flatten_values_tree example_heap (Ref 0) = Some (Inr [0, 1], h')
     \<and> val (h' 0) = val (example_heap 0) \<and> val (h' 1) = val (example_heap 1)
     \<and> struct_def (h' 0) = struct_def (example_heap 0)
     \<and> h' 2 = example_heap 2 \<and> set [0, 1] \<subseteq> (edges example_heap)\<^sup>* `` {0}"
  using flatten_values_tree_only_offsets[OF example_flatten] example_flatten by simp

section \<open>The check of the first field\<close>

lemma byte_version_is_tree: "is_tree byte_version_heap (Node 0 [])"
  by (simp add: byte_version_heap_def children_def null_C_def)

lemma byte_version_vars:
  "vars (struct_def (byte_version_heap (root_of (Node 0 [])))) =
     \<lparr>var_name = ''version'', var_typ = T_u8\<rparr> # []"
  by (simp add: byte_version_heap_def B_def_def)

text \<open>
  C6, as stated, fails: a top-level record whose first field is named \<open>version\<close> but is one
  byte wide is flattened.
\<close>

theorem flatten_accepts_byte_version:
  "pack_format (var_typ (hd (vars (struct_def (byte_version_heap 0))))) = Fmt_B
   \<and> calcsize Fmt_B = 1
   \<and> flatten_values_tree byte_version_heap (Ref 0) =
       Some (Inr [0], set_offsets byte_version_heap [(0, 0)])"
proof -
  have "pack_format (var_typ (hd (vars (struct_def (byte_version_heap 0))))) = Fmt_B"
    by (simp add: byte_version_heap_def B_def_def T_u8_def)
  moreover have "flatten_values_tree byte_version_heap (Ref 0) =
       Some (Inr [0], set_offsets byte_version_heap [(0, 0)])"
    using flatten_tree[OF byte_version_is_tree byte_version_vars] by simp
  ultimately show ?thesis by simp
qed

text \<open>
  C6, amended. \<^verbatim>\<open>flatten_values_tree\<close> checks the name of the first field only: when the
  struct definition of the top-level record has no field (\<^verbatim>\<open>IndexError\<close>) or its first field
  is not named \<open>version\<close> (\<^verbatim>\<open>AssertionError\<close>), it fails and the store is as before, no offset
  assigned; so it returns a list only for a record whose first field is named \<open>version\<close>.
\<close>

theorem flatten_checks_first_field_name:
  "(vars (struct_def (h r)) = [] \<longrightarrow> flatten_values_tree h (Ref r) = Some (Inl IndexError, h))
   \<and> (vars (struct_def (h r)) \<noteq> [] \<and> var_name (hd (vars (struct_def (h r)))) \<noteq> ''version'' \<longrightarrow>
        flatten_values_tree h (Ref r) = Some (Inl AssertionError, h))
   \<and> (\<forall>vals h'. flatten_values_tree h (Ref r) = Some (Inr vals, h') \<longrightarrow>
        vars (struct_def (h r)) \<noteq> [] \<and> var_name (hd (vars (struct_def (h r)))) = ''version'')"
  by (auto simp: flatten_values_tree_def split: list.splits)

theorem flatten_checks_first_field_name_witness:
  "var_name (hd (vars (struct_def (no_version_heap 0)))) = ''flag''
   \<and> flatten_values_tree no_version_heap (Ref 0) = Some (Inl AssertionError, no_version_heap)"
proof -
  have "vars (struct_def (no_version_heap 0)) \<noteq> [] \<and>
        var_name (hd (vars (struct_def (no_version_heap 0)))) \<noteq> ''version''"
    by (simp add: no_version_heap_def F_def_def)
  with flatten_checks_first_field_name[of no_version_heap 0] show ?thesis
    by (simp add: no_version_heap_def F_def_def)
qed

lemma shared_is_tree: "is_tree shared_heap (Node 0 [Node 1 [], Node 1 []])"
  by (simp add: shared_heap_def children_def new_C_def null_C_def)

lemma shared_vars:
  "vars (struct_def (shared_heap (root_of (Node 0 [Node 1 [], Node 1 []])))) =
     \<lparr>var_name = ''version'', var_typ = T_u32\<rparr> #
     [\<lparr>var_name = ''first'', var_typ = T_ptr\<rparr>, \<lparr>var_name = ''second'', var_typ = T_ptr\<rparr>]"
  by (simp add: shared_heap_def D_def_def)

lemma shared_bfs:
  "bfs_offsets (size_of shared_heap) [Node 0 [Node 1 [], Node 1 []]] 0 = [(0, 0), (1, 20), (1, 25)]"
  by (simp add: size_of_def shared_heap_def new_C_def D_def_def C_def_def)

lemma shared_edges: "edges shared_heap = {(0, 1)}"
  by (auto simp: edges_def children_def shared_heap_def new_C_def null_C_def split: if_splits)

lemma shared_flatten:
  "flatten_values_tree shared_heap (Ref 0) =
     Some (Inr [0, 1, 1], set_offsets shared_heap [(0, 0), (1, 20), (1, 25)])"
  using flatten_tree[OF shared_is_tree shared_vars, unfolded shared_bfs] by simp


section \<open>Cycles\<close>

lemma nested_val: "m \<in> set (nested h flds) \<Longrightarrow> val (h m) \<noteq> None"
  by (induction h flds rule: nested.induct) (auto split: if_splits)

lemma cycle_child:
  assumes "(n, c) \<in> (edges h)\<^sup>*" "(c, c) \<in> (edges h)\<^sup>+"
  shows "\<exists>m c'. m \<in> set (children h n) \<and> (m, c') \<in> (edges h)\<^sup>* \<and> (c', c') \<in> (edges h)\<^sup>+"
  using assms(1)
proof (cases rule: converse_rtranclE)
  case base
  from assms(2) obtain z where "(c, z) \<in> edges h" "(z, c) \<in> (edges h)\<^sup>*"
    by (auto dest: tranclD)
  with base assms(2) show ?thesis by (auto simp: edges_def)
next
  case (step m)
  with assms(2) show ?thesis by (auto simp: edges_def)
qed

lemma flatten_loop_cycle:
  assumes "flatten_loop h left offs vals = Some y"
    and "\<forall>n \<in> set left. val (h n) \<noteq> None"
    and "n \<in> set left" "(n, c) \<in> (edges h)\<^sup>*" "(c, c) \<in> (edges h)\<^sup>+"
  shows False
  using assms
proof (induction arbitrary: n c rule: flatten_loop_induct)
  case (Nil h offs vals)
  then show ?case by simp
next
  case (TypeError h v left offs vals)
  then show ?case by simp
next
  case (Step h v left offs vals flds y)
  let ?h = "h(v := (h v)\<lparr>offset := Some offs\<rparr>)"
  have ch: "children h v = nested h flds"
    using Step.hyps(1) by (simp add: children_def)
  have vals: "\<forall>n \<in> set (left @ nested h flds). val (?h n) \<noteq> None"
    using Step.prems(1) by (auto dest: nested_val)
  obtain m c' where m: "m \<in> set (left @ nested h flds)" "(m, c') \<in> (edges h)\<^sup>*"
    "(c', c') \<in> (edges h)\<^sup>+"
  proof (cases "n = v")
    case True
    from cycle_child[OF Step.prems(3,4)] True ch that show ?thesis by auto
  next
    case False
    with Step.prems(2,3,4) that show ?thesis by auto
  qed
  have e: "edges ?h = edges h" by simp
  have "(m, c') \<in> (edges ?h)\<^sup>*" "(c', c') \<in> (edges ?h)\<^sup>+"
    using m(2,3) by (simp_all only: e)
  then show ?case
    by (rule Step.IH[OF vals m(1)])
qed

lemma flatten_values_tree_cycle:
  assumes "(r, c) \<in> (edges h)\<^sup>*" and "(c, c) \<in> (edges h)\<^sup>+"
    and "vars (struct_def (h r)) = v0 # vs" and "var_name v0 = ''version''"
  shows "flatten_values_tree h (Ref r) = None"
proof -
  from cycle_child[OF assms(1,2)] have "children h r \<noteq> []" by auto
  then have v: "\<forall>n \<in> set [r]. val (h n) \<noteq> None"
    by (auto simp: children_def split: option.splits)
  have "flatten_loop h [r] 0 [] = None"
  proof (cases "flatten_loop h [r] 0 []")
    case (Some y)
    from flatten_loop_cycle[OF Some v _ assms(1,2)] show ?thesis by simp
  qed simp
  with assms(3,4) show ?thesis by (simp add: flatten_values_tree_def)
qed

lemma cyclic_heap_children: "children cyclic_heap 0 = [1]" "children cyclic_heap 1 = [0]"
  by (simp_all add: cyclic_heap_def children_def new_S_def)

lemma cyclic_heap_vars:
  "vars (struct_def (cyclic_heap 0)) =
     \<lparr>var_name = ''version'', var_typ = T_u32\<rparr> #
     [\<lparr>var_name = ''count'', var_typ = T_u32\<rparr>, \<lparr>var_name = ''child'', var_typ = T_ptr\<rparr>]"
  by (simp add: cyclic_heap_def new_S_def S_def_def)

text \<open>
  C3, as stated, fails: with record \<open>A\<close> at 0 referring to record \<open>B\<close> at 1 and \<open>B\<close> referring
  to \<open>A\<close>, \<^verbatim>\<open>flatten_values_tree\<close> does not detect the cycle; it does not return.
\<close>

theorem flatten_cyclic_no_error:
  "children cyclic_heap 0 = [1] \<and> children cyclic_heap 1 = [0]
   \<and> flatten_values_tree cyclic_heap (Ref 0) = None"
proof -
  have "(0, 1) \<in> edges cyclic_heap" "(1, 0) \<in> edges cyclic_heap"
    using cyclic_heap_children by (simp_all add: edges_def)
  then have "(0, 0) \<in> (edges cyclic_heap)\<^sup>+" by (rule trancl_into_trancl2[OF _ r_into_trancl])
  from flatten_values_tree_cycle[OF rtrancl.rtrancl_refl this cyclic_heap_vars]
  show ?thesis using cyclic_heap_children by simp
qed

text \<open>
  C3, amended. \<^verbatim>\<open>flatten_values_tree\<close> has no cycle detection and no cycle error: when
  the root passes the check of its first field and some record reachable from the root
  through nested records is reachable from itself, the loop never finds the queue empty (the
  records of the cycle are put in it again and again), so the function does not return.
\<close>

theorem flatten_cyclic_diverges:
  assumes "(r, c) \<in> (edges h)\<^sup>*" and "(c, c) \<in> (edges h)\<^sup>+"
    and "vars (struct_def (h r)) = v0 # vs" and "var_name v0 = ''version''"
  shows "flatten_values_tree h (Ref r) = None"
  using assms by (rule flatten_values_tree_cycle)

theorem flatten_cyclic_diverges_witness:
  "children self_heap 0 = [0] \<and> flatten_values_tree self_heap (Ref 0) = None"
proof -
  have c: "children self_heap 0 = [0]"
    by (simp add: self_heap_def children_def new_S_def)
  then have "(0, 0) \<in> edges self_heap" by (simp add: edges_def)
  then have t: "(0, 0) \<in> (edges self_heap)\<^sup>+" by (rule r_into_trancl)
  have v: "vars (struct_def (self_heap 0)) =
     \<lparr>var_name = ''version'', var_typ = T_u32\<rparr> #
     [\<lparr>var_name = ''count'', var_typ = T_u32\<rparr>, \<lparr>var_name = ''child'', var_typ = T_ptr\<rparr>]"
    by (simp add: self_heap_def new_S_def S_def_def)
  have n: "var_name \<lparr>var_name = ''version'', var_typ = T_u32\<rparr> = ''version''" by simp
  from flatten_cyclic_diverges[OF rtrancl.rtrancl_refl t v n] c show ?thesis by simp
qed

section \<open>Running the generator again\<close>

lemma offset_update_eq:
  fixes x y :: StructVal
  shows "s_typ x = s_typ y \<Longrightarrow> struct_def x = struct_def y \<Longrightarrow> val x = val y \<Longrightarrow>
   x\<lparr>offset := z\<rparr> = y\<lparr>offset := z\<rparr>"
  by (cases x, cases y) simp

lemma nested_same_val: "(\<forall>a. val (g a) = val (h a)) \<Longrightarrow> nested g flds = nested h flds"
  by (induction h flds rule: nested.induct) simp_all

lemma flatten_loop_rerun:
  assumes "flatten_loop h left offs vals = Some y"
    and "\<forall>a. s_typ (g a) = s_typ (h a) \<and> struct_def (g a) = struct_def (h a) \<and> val (g a) = val (h a)"
  shows "\<exists>g'. flatten_loop g left offs vals = Some (fst y, g')
            \<and> (\<forall>a. g' a = snd y a \<or> (g' a = g a \<and> snd y a = h a))"
  using assms
proof (induction arbitrary: g rule: flatten_loop_induct)
  case (Nil h offs vals)
  show ?case by (simp add: flatten_loop_Nil)
next
  case (TypeError h v left offs vals)
  let ?h = "h(v := (h v)\<lparr>offset := Some offs\<rparr>)"
  let ?g = "g(v := (g v)\<lparr>offset := Some offs\<rparr>)"
  from TypeError.prems have gh: "s_typ (g v) = s_typ (h v)" "struct_def (g v) = struct_def (h v)"
    "val (g v) = val (h v)" by blast+
  from gh(3) TypeError.hyps have "val (g v) = None" by simp
  then have run: "flatten_loop g (v # left) offs vals = Some (Inl TypeError, ?g)"
    by (simp add: flatten_loop_Cons)
  have eq: "(g v)\<lparr>offset := Some offs\<rparr> = (h v)\<lparr>offset := Some offs\<rparr>"
    using gh by (rule offset_update_eq)
  have "?g a = ?h a \<or> (?g a = g a \<and> ?h a = h a)" for a
    using eq by (cases "a = v") simp_all
  then have "\<forall>a. ?g a = ?h a \<or> (?g a = g a \<and> ?h a = h a)" ..
  with run have "flatten_loop g (v # left) offs vals = Some (Inl TypeError, ?g)
      \<and> (\<forall>a. ?g a = ?h a \<or> (?g a = g a \<and> ?h a = h a))" ..
  then show ?case unfolding fst_conv snd_conv by (rule exI[where x = ?g])
next
  case (Step h v left offs vals flds y)
  let ?h = "h(v := (h v)\<lparr>offset := Some offs\<rparr>)"
  let ?g = "g(v := (g v)\<lparr>offset := Some offs\<rparr>)"
  have gh: "s_typ (g a) = s_typ (h a)" "struct_def (g a) = struct_def (h a)"
    "val (g a) = val (h a)" for a
    using Step.prems by blast+
  have eq: "(g v)\<lparr>offset := Some offs\<rparr> = (h v)\<lparr>offset := Some offs\<rparr>"
    using gh by (rule offset_update_eq)
  have "s_typ (?g a) = s_typ (?h a) \<and> struct_def (?g a) = struct_def (?h a)
                \<and> val (?g a) = val (?h a)" for a
    using gh[of a] by (cases "a = v") simp_all
  then have same: "\<forall>a. s_typ (?g a) = s_typ (?h a) \<and> struct_def (?g a) = struct_def (?h a)
                \<and> val (?g a) = val (?h a)" ..
  from Step.IH[OF same] obtain g' where g':
    "flatten_loop ?g (left @ nested h flds) (offs + c_size (struct_def (h v))) (vals @ [v]) = Some (fst y, g')
     \<and> (\<forall>a. g' a = snd y a \<or> (g' a = ?g a \<and> snd y a = ?h a))" ..
  have nst: "nested g flds = nested h flds"
    by (rule nested_same_val) (simp add: gh)
  have "flatten_loop g (v # left) offs vals =
          flatten_loop ?g (left @ nested h flds) (offs + c_size (struct_def (h v))) (vals @ [v])"
    by (simp add: flatten_loop_Cons gh Step.hyps(1) nst)
  with g' have run: "flatten_loop g (v # left) offs vals = Some (fst y, g')" by simp
  have "g' a = snd y a \<or> (g' a = g a \<and> snd y a = h a)" for a
  proof (cases "a = v")
    case True
    from g' have "g' v = snd y v \<or> (g' v = ?g v \<and> snd y v = ?h v)" by blast
    with eq True show ?thesis by auto
  next
    case False
    from g' have "g' a = snd y a \<or> (g' a = ?g a \<and> snd y a = ?h a)" by blast
    with False show ?thesis by simp
  qed
  then have "\<forall>a. g' a = snd y a \<or> (g' a = g a \<and> snd y a = h a)" ..
  with run have "flatten_loop g (v # left) offs vals = Some (fst y, g')
      \<and> (\<forall>a. g' a = snd y a \<or> (g' a = g a \<and> snd y a = h a))" ..
  then show ?case by (rule exI[where x = g'])
qed

lemma flatten_values_tree_rerun:
  assumes "flatten_values_tree h root = Some (res, h')"
  shows "flatten_values_tree h' root = Some (res, h')"
proof (cases root)
  case (Prim t v)
  with assms show ?thesis by (simp add: flatten_values_tree_def)
next
  case (Ref r)
  from assms[unfolded Ref] show ?thesis
  proof (cases rule: flatten_values_tree_cases)
    case Index
    with assms show ?thesis by simp
  next
    case Assertion
    with assms show ?thesis by simp
  next
    case (Loop v0 vs)
    have same: "\<forall>a. s_typ (h' a) = s_typ (h a) \<and> struct_def (h' a) = struct_def (h a)
                  \<and> val (h' a) = val (h a)"
      using flatten_loop_frame_pair(1,2,3)[OF Loop(3)] by simp
    from flatten_loop_rerun[OF Loop(3) same] obtain g' where
      g': "flatten_loop h' [r] 0 [] = Some (res, g')" "\<forall>a. g' a = h' a \<or> (g' a = h' a \<and> h' a = h a)"
      by auto
    from g'(2) have "g' = h'" by (auto simp: fun_eq_iff)
    with g'(1) have l: "flatten_loop h' [r] 0 [] = Some (res, h')" by simp
    have "vars (struct_def (h' r)) = v0 # vs" using same Loop(1) by simp
    with l Loop(2) Ref show ?thesis by (simp add: flatten_values_tree_def)
  qed
qed

section \<open>The emitter\<close>

lemma struct_pack_length: "struct_pack fmt v = Inr data \<Longrightarrow> length data = calcsize fmt"
  by (cases v) (auto simp: le_bytes_def split: if_splits)

lemma struct_pack_error: "struct_pack fmt v = Inl e \<Longrightarrow> e = StructError"
  by (cases v) (auto split: if_splits)

lemma emitted_bytes_append [simp]: "emitted_bytes (xs @ ys) = emitted_bytes xs @ emitted_bytes ys"
  by (simp add: emitted_bytes_def)

lemma emitted_bytes_simps [simp]:
  "emitted_bytes [] = []"
  "emitted_bytes (Text s # ls) = emitted_bytes ls"
  "emitted_bytes (StructComment nm offs # ls) = emitted_bytes ls"
  "emitted_bytes (DataLine data ty nm v # ls) = data @ emitted_bytes ls"
  by (simp_all add: emitted_bytes_def)

text \<open>One field: either an error, or one line with the packed bytes of the field.\<close>

lemma field_lines_Cons_Inl:
  "field_value h fld = Inl e \<Longrightarrow> field_lines h (fld # flds) lines sz = Inl e"
  by simp

lemma field_lines_Cons_pack_Inl:
  "field_value h fld = Inr v \<Longrightarrow> struct_pack (pack_format (field_typ h fld)) v = Inl e \<Longrightarrow>
   field_lines h (fld # flds) lines sz = Inl e"
  by simp

lemma field_lines_Cons_Inr:
  "field_value h fld = Inr v \<Longrightarrow> struct_pack (pack_format (field_typ h fld)) v = Inr data \<Longrightarrow>
   field_lines h (fld # flds) lines sz =
     field_lines h flds
       (lines @ [DataLine data (c_type (field_typ h fld)) (name (field_typ h fld))
                   (if is_of_num_type v then hex v else Str v)])
       (sz + int (length data))"
  by simp

lemma field_lines_result:
  "field_lines h flds lines sz = Inr (ls, sz') \<Longrightarrow>
   (\<exists>ds. ls = lines @ ds \<and> int (length (emitted_bytes ds)) = sz' - sz)
   \<and> sz' - sz = sum_list (map (\<lambda>f. int (calcsize (pack_format (field_typ h f)))) flds)"
proof (induction flds arbitrary: lines sz)
  case Nil
  then show ?case by simp
next
  case (Cons fld flds)
  show ?case
  proof (cases "field_value h fld")
    case (Inl e)
    from field_lines_Cons_Inl[OF Inl] Cons.prems show ?thesis by simp
  next
    case (Inr v)
    show ?thesis
    proof (cases "struct_pack (pack_format (field_typ h fld)) v")
      case (Inl e)
      from field_lines_Cons_pack_Inl[OF Inr Inl] Cons.prems show ?thesis by simp
    next
      case data: (Inr data)
      let ?d = "DataLine data (c_type (field_typ h fld)) (name (field_typ h fld))
                   (if is_of_num_type v then hex v else Str v)"
      from field_lines_Cons_Inr[OF Inr data] Cons.prems
      have "field_lines h flds (lines @ [?d]) (sz + int (length data)) = Inr (ls, sz')" by simp
      from Cons.IH[OF this] obtain ds where ds: "ls = (lines @ [?d]) @ ds"
        "int (length (emitted_bytes ds)) = sz' - (sz + int (length data))"
        "sz' - (sz + int (length data)) =
           sum_list (map (\<lambda>f. int (calcsize (pack_format (field_typ h f)))) flds)"
        by blast
      have len: "length data = calcsize (pack_format (field_typ h fld))"
        using data by (rule struct_pack_length)
      have "ls = lines @ (?d # ds)" using ds(1) by simp
      moreover have "int (length (emitted_bytes (?d # ds))) = sz' - sz" using ds(2) by simp
      moreover have "sz' - sz = sum_list (map (\<lambda>f. int (calcsize (pack_format (field_typ h f)))) (fld # flds))"
        using ds(3) len by simp
      ultimately show ?thesis by blast
    qed
  qed
qed

lemma field_lines_bytes:
  "field_lines h flds lines sz = Inr (ls, sz') \<Longrightarrow> field_lines h flds lines2 sz2 = Inr (ls2, sz2') \<Longrightarrow>
   \<exists>ds. ls = lines @ ds \<and> ls2 = lines2 @ ds"
proof (induction flds arbitrary: lines sz lines2 sz2)
  case Nil
  then show ?case by simp
next
  case (Cons fld flds)
  show ?case
  proof (cases "field_value h fld")
    case (Inl e)
    from field_lines_Cons_Inl[OF Inl] Cons.prems(1) show ?thesis by simp
  next
    case (Inr v)
    show ?thesis
    proof (cases "struct_pack (pack_format (field_typ h fld)) v")
      case (Inl e)
      from field_lines_Cons_pack_Inl[OF Inr Inl] Cons.prems(1) show ?thesis by simp
    next
      case data: (Inr data)
      let ?d = "DataLine data (c_type (field_typ h fld)) (name (field_typ h fld))
                   (if is_of_num_type v then hex v else Str v)"
      from field_lines_Cons_Inr[OF Inr data] Cons.prems(1)
      have 1: "field_lines h flds (lines @ [?d]) (sz + int (length data)) = Inr (ls, sz')" by simp
      from field_lines_Cons_Inr[OF Inr data] Cons.prems(2)
      have 2: "field_lines h flds (lines2 @ [?d]) (sz2 + int (length data)) = Inr (ls2, sz2')" by simp
      from Cons.IH[OF 1 2] obtain ds where "ls = (lines @ [?d]) @ ds" "ls2 = (lines2 @ [?d]) @ ds"
        by blast
      then have "ls = lines @ (?d # ds) \<and> ls2 = lines2 @ (?d # ds)" by simp
      then show ?thesis by (rule exI[where x = "?d # ds"])
    qed
  qed
qed

text \<open>One record.\<close>

lemma get_cpp_data_result:
  assumes "get_cpp_data_for_struct_val h a offs = Inr (ls, sz)"
  shows "sz = packed_size h a" and "int (length (emitted_bytes ls)) = packed_size h a"
    and "emitted_bytes ls = record_bytes h a"
proof -
  from assms obtain flds where flds: "val (h a) = Some flds"
    and run: "field_lines h flds [Text [], StructComment (struct_name (struct_def (h a))) offs] 0 = Inr (ls, sz)"
    by (auto simp: get_cpp_data_for_struct_val_def Let_def split: option.splits)
  from field_lines_result[OF run] obtain ds where
    ds: "ls = [Text [], StructComment (struct_name (struct_def (h a))) offs] @ ds"
      "int (length (emitted_bytes ds)) = sz" 
      "sz = sum_list (map (\<lambda>f. int (calcsize (pack_format (field_typ h f)))) flds)"
    by auto
  from ds(3) flds show "sz = packed_size h a" by (simp add: packed_size_def)
  with ds(1,2) show "int (length (emitted_bytes ls)) = packed_size h a" by simp
  obtain ls0 sz0 where run0:
    "field_lines h flds [Text [], StructComment (struct_name (struct_def (h a))) 0] 0 = Inr (ls0, sz0)"
  proof (cases "field_lines h flds [Text [], StructComment (struct_name (struct_def (h a))) 0] 0")
    case (Inl e)
    have "\<exists>e. field_lines h flds lines2 sz2 = Inl e" if "field_lines h flds lines1 sz1 = Inl e1"
      for lines1 sz1 lines2 sz2 e1
      using that
    proof (induction flds arbitrary: lines1 sz1 lines2 sz2)
      case Nil
      then show ?case by simp
    next
      case (Cons fld flds)
      show ?case
      proof (cases "field_value h fld")
        case (Inl e)
        then show ?thesis by simp
      next
        case (Inr v)
        show ?thesis
        proof (cases "struct_pack (pack_format (field_typ h fld)) v")
          case (Inl e)
          with Inr show ?thesis by simp
        next
          case data: (Inr data)
          from Cons.prems field_lines_Cons_Inr[OF Inr data]
          have "field_lines h flds
                  (lines1 @ [DataLine data (c_type (field_typ h fld)) (name (field_typ h fld))
                   (if is_of_num_type v then hex v else Str v)]) (sz1 + int (length data)) = Inl e1"
            by simp
          from Cons.IH[OF this] field_lines_Cons_Inr[OF Inr data] show ?thesis by simp
        qed
      qed
    qed
    from this[OF Inl] run show ?thesis by (metis sum.distinct(1))
  next
    case (Inr p)
    then show ?thesis using that by (cases p) simp
  qed
  from field_lines_bytes[OF run run0] obtain ds' where
    "ls = [Text [], StructComment (struct_name (struct_def (h a))) offs] @ ds'"
    "ls0 = [Text [], StructComment (struct_name (struct_def (h a))) 0] @ ds'"
    by blast
  then have "emitted_bytes ls = emitted_bytes ls0" by simp
  moreover have "record_bytes h a = emitted_bytes ls0"
    using flds run0 by (simp add: record_bytes_def get_cpp_data_for_struct_val_def)
  ultimately show "emitted_bytes ls = record_bytes h a" by simp
qed

text \<open>The list of records.\<close>

lemma struct_lines_result:
  "struct_lines h vals lines offs = Inr (ls, offs') \<Longrightarrow>
   emitted_bytes ls = emitted_bytes lines @ concat (map (record_bytes h) vals)
   \<and> offs' - offs = sum_list (map (packed_size h) vals)
   \<and> int (length (emitted_bytes ls)) = int (length (emitted_bytes lines)) + (offs' - offs)"
proof (induction vals arbitrary: lines offs)
  case Nil
  then show ?case by simp
next
  case (Cons v vals)
  show ?case
  proof (cases "get_cpp_data_for_struct_val h v offs")
    case (Inl e)
    with Cons.prems show ?thesis by simp
  next
    case (Inr p)
    obtain l sz where p: "p = (l, sz)" by (cases p)
    note r = get_cpp_data_result[OF Inr[unfolded p]]
    from Cons.prems Inr p have "struct_lines h vals (lines @ l) (offs + sz) = Inr (ls, offs')"
      by simp
    from Cons.IH[OF this] have
      A: "emitted_bytes ls = emitted_bytes (lines @ l) @ concat (map (record_bytes h) vals)"
      and B: "offs' - (offs + sz) = sum_list (map (packed_size h) vals)"
      and C: "int (length (emitted_bytes ls)) = int (length (emitted_bytes (lines @ l))) + (offs' - (offs + sz))"
      by blast+
    have "emitted_bytes ls = emitted_bytes lines @ concat (map (record_bytes h) (v # vals))"
      using A r(3) by simp
    moreover have "offs' - offs = sum_list (map (packed_size h) (v # vals))"
      using B r(1) by simp
    moreover have "int (length (emitted_bytes ls)) = int (length (emitted_bytes lines)) + (offs' - offs)"
      using C r(1,2) by simp
    ultimately show ?thesis by blast
  qed
qed

lemma gen_cpp_data_result:
  assumes "gen_cpp_data_for_struct_values h vals = Inr ls"
  shows "emitted_bytes ls = concat (map (record_bytes h) vals)"
    and "int (length (emitted_bytes ls)) = sum_list (map (packed_size h) vals)"
proof -
  from assms obtain v vs where vals: "vals = v # vs" 
    by (cases vals) (simp_all add: gen_cpp_data_for_struct_values_def)
  let ?hd = "[Text (''static uint8_t g'' @ struct_name (struct_def (h v)) @ ''Default[] = {'')]"
  from assms vals obtain l offs where run: "struct_lines h vals ?hd 0 = Inr (l, offs)"
    and ls: "ls = l @ [Text ''};'']"
    by (auto simp: gen_cpp_data_for_struct_values_def Let_def split: sum.splits)
  from struct_lines_result[OF run] have
    A: "emitted_bytes l = emitted_bytes ?hd @ concat (map (record_bytes h) vals)"
    and B: "offs - 0 = sum_list (map (packed_size h) vals)"
    and C: "int (length (emitted_bytes l)) = int (length (emitted_bytes ?hd)) + (offs - 0)"
    by blast+
  show "emitted_bytes ls = concat (map (record_bytes h) vals)"
    using A ls by simp
  show "int (length (emitted_bytes ls)) = sum_list (map (packed_size h) vals)"
    using B C ls by simp
qed

section \<open>Null references\<close>

lemma null_child_is_tree: "is_tree null_child_heap (Node 0 [])"
  by (simp add: null_child_heap_def children_def new_S_def null_C_def)

lemma null_child_vars:
  "vars (struct_def (null_child_heap (root_of (Node 0 [])))) =
     \<lparr>var_name = ''version'', var_typ = T_u32\<rparr> #
     [\<lparr>var_name = ''count'', var_typ = T_u32\<rparr>, \<lparr>var_name = ''child'', var_typ = T_ptr\<rparr>]"
  by (simp add: null_child_heap_def new_S_def S_def_def)

lemma null_child_flatten:
  "flatten_values_tree null_child_heap (Ref 0) =
     Some (Inr [0], set_offsets null_child_heap [(0, 0)])"
  using flatten_tree[OF null_child_is_tree null_child_vars] by simp

lemma null_child_emit:
  "gen_cpp_data_for_struct_values (set_offsets null_child_heap [(0, 0)]) [0] = Inl AssertionError"
  by code_simp

text \<open>
  C4. The code does not do what the claim says: for the record \<open>S\<close> whose \<open>child\<close> field is
  the null reference \<^verbatim>\<open>StructVal(C, None)\<close>, flattening succeeds and leaves the \<open>offset\<close> of
  the null reference unset, and the emitter then stops at \<^verbatim>\<open>assert False\<close> instead of packing
  the sentinel 0 (the assignment \<^verbatim>\<open>val = 0\<close> after the assert is never reached).
\<close>

theorem null_reference_raises:
  "val (null_child_heap 0) = Some [Prim T_u32 (IntV 33751040), Prim T_u32 (IntV 5), Ref 1]
   \<and> val (null_child_heap 1) = None \<and> offset (null_child_heap 1) = None
   \<and> values_global_data null_child_heap (Ref 0) =
       Some (Inl AssertionError, set_offsets null_child_heap [(0, 0)])"
proof -
  have "val (null_child_heap 0) = Some [Prim T_u32 (IntV 33751040), Prim T_u32 (IntV 5), Ref 1]"
    "val (null_child_heap 1) = None" "offset (null_child_heap 1) = None"
    by (simp_all add: null_child_heap_def new_S_def null_C_def)
  moreover have "values_global_data null_child_heap (Ref 0) =
       Some (Inl AssertionError, set_offsets null_child_heap [(0, 0)])"
    unfolding values_global_data_def null_child_flatten
    by (simp only: option.case prod.case sum.case null_child_emit)
  ultimately show ?thesis by simp
qed

section \<open>Values that do not fit\<close>

lemma field_lines_unfit:
  assumes "Prim t (IntV v) \<in> set flds" "\<not> (0 \<le> v \<and> v < 2 ^ (8 * calcsize (pack_format t)))"
  shows "\<exists>e. field_lines h flds lines sz = Inl e"
  using assms(1)
proof (induction flds arbitrary: lines sz)
  case Nil
  then show ?case by simp
next
  case (Cons fld flds)
  show ?case
  proof (cases "field_value h fld")
    case (Inl e)
    then show ?thesis by simp
  next
    case (Inr w)
    show ?thesis
    proof (cases "struct_pack (pack_format (field_typ h fld)) w")
      case (Inl e)
      with Inr show ?thesis by simp
    next
      case data: (Inr data)
      have "fld \<noteq> Prim t (IntV v)"
        using Inr data assms(2) by auto
      with Cons.prems have "Prim t (IntV v) \<in> set flds" by simp
      from Cons.IH[OF this] field_lines_Cons_Inr[OF Inr data] show ?thesis by simp
    qed
  qed
qed

lemma field_lines_error_kind:
  "field_lines h flds lines sz = Inl e \<Longrightarrow> (\<forall>c. Ref c \<in> set flds \<longrightarrow> offset (h c) \<noteq> None) \<Longrightarrow>
   e = StructError"
proof (induction flds arbitrary: lines sz)
  case Nil
  then show ?case by simp
next
  case (Cons fld flds)
  have ok: "\<exists>w. field_value h fld = Inr w"
    using Cons.prems(2) by (cases fld) auto
  then obtain w where w: "field_value h fld = Inr w" ..
  show ?case
  proof (cases "struct_pack (pack_format (field_typ h fld)) w")
    case (Inl e')
    from field_lines_Cons_pack_Inl[OF w Inl] Cons.prems(1) have "e = e'" by simp
    with struct_pack_error[OF Inl] show ?thesis by simp
  next
    case data: (Inr data)
    from field_lines_Cons_Inr[OF w data] Cons.prems(1)
    have "field_lines h flds
            (lines @ [DataLine data (c_type (field_typ h fld)) (name (field_typ h fld))
                   (if is_of_num_type w then hex w else Str w)]) (sz + int (length data)) = Inl e"
      by simp
    moreover have "\<forall>c. Ref c \<in> set flds \<longrightarrow> offset (h c) \<noteq> None"
      using Cons.prems(2) by simp
    ultimately show ?thesis by (rule Cons.IH)
  qed
qed

lemma get_cpp_data_unfit:
  assumes "val (h a) = Some flds" "Prim t (IntV v) \<in> set flds"
    "\<not> (0 \<le> v \<and> v < 2 ^ (8 * calcsize (pack_format t)))"
  shows "\<exists>e. get_cpp_data_for_struct_val h a offs = Inl e"
  using field_lines_unfit[OF assms(2,3)] assms(1)
  by (simp add: get_cpp_data_for_struct_val_def)

lemma get_cpp_data_error_kind:
  assumes "get_cpp_data_for_struct_val h a offs = Inl e" "val (h a) = Some flds"
    "\<forall>c. Ref c \<in> set flds \<longrightarrow> offset (h c) \<noteq> None"
  shows "e = StructError"
proof -
  from assms(1,2) have
    "field_lines h flds [Text [], StructComment (struct_name (struct_def (h a))) offs] 0 = Inl e"
    by (simp add: get_cpp_data_for_struct_val_def)
  then show ?thesis using assms(3) by (rule field_lines_error_kind)
qed

lemma struct_lines_unfit:
  assumes "a \<in> set vals" "\<And>offs. \<exists>e. get_cpp_data_for_struct_val h a offs = Inl e"
  shows "\<exists>e. struct_lines h vals lines offs = Inl e"
  using assms(1)
proof (induction vals arbitrary: lines offs)
  case Nil
  then show ?case by simp
next
  case (Cons v vals)
  show ?case
  proof (cases "get_cpp_data_for_struct_val h v offs")
    case (Inl e)
    then show ?thesis by simp
  next
    case (Inr p)
    obtain l sz where p: "p = (l, sz)" by (cases p)
    from Inr assms(2)[of offs] have "v \<noteq> a" by auto
    with Cons.prems have "a \<in> set vals" by simp
    from Cons.IH[OF this, of "lines @ l" "offs + sz"] Inr p show ?thesis by simp
  qed
qed

lemma struct_lines_error_kind:
  "struct_lines h vals lines offs = Inl e \<Longrightarrow>
   (\<And>b offs e. b \<in> set vals \<Longrightarrow> get_cpp_data_for_struct_val h b offs = Inl e \<Longrightarrow> e = StructError) \<Longrightarrow>
   e = StructError"
proof (induction vals arbitrary: lines offs)
  case Nil
  then show ?case by simp
next
  case (Cons v vals)
  show ?case
  proof (cases "get_cpp_data_for_struct_val h v offs")
    case (Inl e')
    with Cons.prems(1) have "e = e'" by simp
    with Cons.prems(2)[OF _ Inl] show ?thesis by simp
  next
    case (Inr p)
    obtain l sz where p: "p = (l, sz)" by (cases p)
    from Cons.prems(1) Inr p have "struct_lines h vals (lines @ l) (offs + sz) = Inl e" by simp
    then show ?thesis
    proof (rule Cons.IH)
      fix b offs e
      assume "b \<in> set vals" "get_cpp_data_for_struct_val h b offs = Inl e"
      then show "e = StructError" using Cons.prems(2)[of b offs e] by simp
    qed
  qed
qed

lemma gen_cpp_data_unfit:
  assumes "a \<in> set vals" "val (h a) = Some flds" "Prim t (IntV v) \<in> set flds"
    "\<not> (0 \<le> v \<and> v < 2 ^ (8 * calcsize (pack_format t)))"
  shows "\<exists>e. gen_cpp_data_for_struct_values h vals = Inl e"
proof -
  from assms(1) obtain v0 vs where vals: "vals = v0 # vs" by (cases vals) auto
  let ?hd = "[Text (''static uint8_t g'' @ struct_name (struct_def (h v0)) @ ''Default[] = {'')]"
  from struct_lines_unfit[OF assms(1) get_cpp_data_unfit[where h=h and a=a, OF assms(2,3,4)], of ?hd 0]
  obtain e where "struct_lines h vals ?hd 0 = Inl e" ..
  then have "gen_cpp_data_for_struct_values h vals = Inl e"
    unfolding vals by (simp add: gen_cpp_data_for_struct_values_def)
  then show ?thesis ..
qed

lemma gen_cpp_data_error_kind:
  assumes "gen_cpp_data_for_struct_values h vals = Inl e" "vals \<noteq> []"
    and ok: "\<forall>b \<in> set vals. \<exists>fs. val (h b) = Some fs \<and> (\<forall>c. Ref c \<in> set fs \<longrightarrow> offset (h c) \<noteq> None)"
  shows "e = StructError"
proof -
  from assms(2) obtain v0 vs where vals: "vals = v0 # vs" by (cases vals) auto
  let ?hd = "[Text (''static uint8_t g'' @ struct_name (struct_def (h v0)) @ ''Default[] = {'')]"
  have "struct_lines h vals ?hd 0 = Inl e"
  proof (cases "struct_lines h vals ?hd 0")
    case (Inl e')
    with assms(1) show ?thesis
      unfolding vals by (simp add: gen_cpp_data_for_struct_values_def)
  next
    case (Inr p)
    with assms(1) show ?thesis
      unfolding vals by (cases p) (simp add: gen_cpp_data_for_struct_values_def)
  qed
  then show ?thesis
  proof (rule struct_lines_error_kind)
    fix b offs e
    assume b: "b \<in> set vals" and g: "get_cpp_data_for_struct_val h b offs = Inl e"
    from ok b obtain fs where "val (h b) = Some fs" "\<forall>c. Ref c \<in> set fs \<longrightarrow> offset (h c) \<noteq> None"
      by blast
    with g show "e = StructError" by (rule get_cpp_data_error_kind)
  qed
qed

lemma null_then_big_is_tree: "is_tree null_then_big_heap (Node 0 [])"
  by (simp add: null_then_big_heap_def children_def null_C_def)

lemma null_then_big_vars:
  "vars (struct_def (null_then_big_heap (root_of (Node 0 [])))) =
     \<lparr>var_name = ''version'', var_typ = T_u32\<rparr> #
     [\<lparr>var_name = ''child'', var_typ = T_ptr\<rparr>, \<lparr>var_name = ''count'', var_typ = T_u32\<rparr>]"
  by (simp add: null_then_big_heap_def N_def_def)

lemma null_then_big_flatten:
  "flatten_values_tree null_then_big_heap (Ref 0) =
     Some (Inr [0], set_offsets null_then_big_heap [(0, 0)])"
  using flatten_tree[OF null_then_big_is_tree null_then_big_vars] by simp

lemma null_then_big_emit:
  "gen_cpp_data_for_struct_values (set_offsets null_then_big_heap [(0, 0)]) [0] = Inl AssertionError"
  by code_simp




section \<open>The length of the emitted bytes\<close>

lemma is_tree_nodes_val: "is_tree h t \<Longrightarrow> a \<in> set (nodes t) \<Longrightarrow> val (h a) \<noteq> None"
proof (induction t)
  case (Node b ts)
  show ?case
  proof (cases "a = b")
    case True
    with Node.prems(1) show ?thesis by simp
  next
    case False
    with Node.prems(2) obtain u where u: "u \<in> set ts" "a \<in> set (nodes u)" by auto
    from Node.prems(1) u(1) have "is_tree h u" by simp
    from Node.IH[OF u(1) this u(2)] show ?thesis .
  qed
qed

lemma field_typ_same: "(\<forall>a. s_typ (g a) = s_typ (h a)) \<Longrightarrow> field_typ g f = field_typ h f"
  by (cases f) simp_all

lemma packed_size_same:
  assumes "\<forall>a. s_typ (g a) = s_typ (h a)" "\<forall>a. val (g a) = val (h a)"
  shows "packed_size g a = packed_size h a"
proof -
  have "(\<lambda>f. int (calcsize (pack_format (field_typ g f)))) = (\<lambda>f. int (calcsize (pack_format (field_typ h f))))"
    using field_typ_same[OF assms(1)] by simp
  then show ?thesis using assms(2) by (simp add: packed_size_def split: option.splits)
qed

lemma well_formed_packed_size:
  assumes "well_formed h a" "val (h a) \<noteq> None"
  shows "packed_size h a = c_size (struct_def (h a))"
proof -
  from assms(2) obtain flds where flds: "val (h a) = Some flds" by auto
  with assms(1) have c: "c_size (struct_def (h a)) =
        sum_list (map (\<lambda>v. int (calcsize (pack_format (var_typ v)))) (vars (struct_def (h a))))"
    and m: "map (\<lambda>f. pack_format (field_typ h f)) flds =
             map (\<lambda>v. pack_format (var_typ v)) (vars (struct_def (h a)))"
    by (simp_all add: well_formed_def)
  have "sum_list (map (\<lambda>f. int (calcsize (pack_format (field_typ h f)))) flds) =
        sum_list (map (\<lambda>p. int (calcsize p)) (map (\<lambda>f. pack_format (field_typ h f)) flds))"
    by (simp add: comp_def)
  also have "\<dots> = sum_list (map (\<lambda>p. int (calcsize p)) (map (\<lambda>v. pack_format (var_typ v)) (vars (struct_def (h a)))))"
    by (simp only: m)
  also have "\<dots> = c_size (struct_def (h a))"
    by (simp add: c comp_def)
  finally show ?thesis using flds by (simp add: packed_size_def)
qed

lemma sum_list_mset_cong:
  fixes f :: "'a \<Rightarrow> int"
  assumes "mset xs = mset ys"
  shows "sum_list (map f xs) = sum_list (map f ys)"
proof -
  have "sum_list (map f xs) = sum_mset (image_mset f (mset xs))"
    by (metis mset_map sum_mset_sum_list)
  also have "\<dots> = sum_mset (image_mset f (mset ys))" by (simp only: assms)
  also have "\<dots> = sum_list (map f ys)"
    by (metis mset_map sum_mset_sum_list)
  finally show ?thesis .
qed

lemma values_global_data_Inr:
  assumes "values_global_data h root = Some (Inr ls, h')"
  obtains vals where "flatten_values_tree h root = Some (Inr vals, h')"
    "gen_cpp_data_for_struct_values h' vals = Inr ls"
proof (cases "flatten_values_tree h root")
  case None
  with assms show ?thesis by (simp add: values_global_data_def)
next
  case (Some p)
  obtain res h1 where p: "p = (res, h1)" by (cases p)
  show ?thesis
  proof (cases res)
    case (Inl e)
    with assms Some p show ?thesis by (simp add: values_global_data_def)
  next
    case (Inr vals)
    from assms have "Some (gen_cpp_data_for_struct_values h1 vals, h1) = Some (Inr ls, h')"
      unfolding values_global_data_def Some p Inr by (simp only: option.case prod.case sum.case)
    then have h1: "h1 = h'" and g: "gen_cpp_data_for_struct_values h1 vals = Inr ls"
      by auto
    from Some p Inr h1 have "flatten_values_tree h root = Some (Inr vals, h')" by simp
    moreover from g h1 have "gen_cpp_data_for_struct_values h' vals = Inr ls" by simp
    ultimately show ?thesis by (rule that)
  qed
qed

lemma emitted_length:
  assumes tree: "is_tree h t"
    and vars: "vars (struct_def (h (root_of t))) = v0 # vs" "var_name v0 = ''version''"
    and wf: "\<forall>a \<in> set (nodes t). well_formed h a"
    and run: "values_global_data h (Ref (root_of t)) = Some (Inr ls, h')"
  shows "\<exists>vals. flatten_values_tree h (Ref (root_of t)) = Some (Inr vals, h')
           \<and> mset vals = mset (nodes t)
           \<and> emitted_bytes ls = concat (map (record_bytes h') vals)
           \<and> int (length (emitted_bytes ls)) = sum_list (map (\<lambda>a. c_size (struct_def (h a))) vals)"
proof -
  define ps where "ps = bfs_offsets (size_of h) [t] 0"
  from run obtain vals where fl: "flatten_values_tree h (Ref (root_of t)) = Some (Inr vals, h')"
    and gen: "gen_cpp_data_for_struct_values h' vals = Inr ls"
    by (rule values_global_data_Inr)
  from flatten_tree[OF tree vars] fl have vals: "vals = map fst ps" and h': "h' = set_offsets h ps"
    by (simp_all add: ps_def)
  have ms: "mset vals = mset (nodes t)"
    unfolding vals ps_def by (simp only: bfs_offsets_mset) simp
  have same: "\<forall>a. s_typ (h' a) = s_typ (h a)" "\<forall>a. val (h' a) = val (h a)"
    unfolding h' by simp_all
  have sz: "packed_size h' a = c_size (struct_def (h a))" if "a \<in> set vals" for a
  proof -
    from that ms have a: "a \<in> set (nodes t)" by (metis set_mset_mset)
    from wf a have "well_formed h a" by simp
    moreover from is_tree_nodes_val[OF tree a] have "val (h a) \<noteq> None" .
    ultimately have "packed_size h a = c_size (struct_def (h a))" by (rule well_formed_packed_size)
    with packed_size_same[OF same] show ?thesis by simp
  qed
  have "sum_list (map (packed_size h') vals) = sum_list (map (\<lambda>a. c_size (struct_def (h a))) vals)"
    by (rule arg_cong[where f = sum_list]) (simp add: sz)
  with gen_cpp_data_result[OF gen] fl ms show ?thesis by simp
qed

lemma example_emit:
  "gen_cpp_data_for_struct_values (set_offsets example_heap [(0, 0), (1, 16)]) [0, 1] =
     Inr [Text ''static uint8_t gSDefault[] = {'', Text [],
       StructComment ''S'' 0,
       DataLine [0, 0, 3, 2] ''uint32_t'' ''version'' (Hex 33751040),
       DataLine [5, 0, 0, 0] ''uint32_t'' ''version'' (Hex 5),
       DataLine [16, 0, 0, 0, 0, 0, 0, 0] ''Ptr<C>'' ''child'' (Hex 16), Text [],
       StructComment ''C'' 16,
       DataLine [0, 0, 3, 2] ''uint32_t'' ''version'' (Hex 33751040),
       DataLine [1] ''uint8_t'' ''flag'' (Hex 1), Text ''};'']"
  by code_simp

lemma example_run:
  "values_global_data example_heap (Ref 0) =
     Some (Inr [Text ''static uint8_t gSDefault[] = {'', Text [],
       StructComment ''S'' 0,
       DataLine [0, 0, 3, 2] ''uint32_t'' ''version'' (Hex 33751040),
       DataLine [5, 0, 0, 0] ''uint32_t'' ''version'' (Hex 5),
       DataLine [16, 0, 0, 0, 0, 0, 0, 0] ''Ptr<C>'' ''child'' (Hex 16), Text [],
       StructComment ''C'' 16,
       DataLine [0, 0, 3, 2] ''uint32_t'' ''version'' (Hex 33751040),
       DataLine [1] ''uint8_t'' ''flag'' (Hex 1), Text ''};''],
      set_offsets example_heap [(0, 0), (1, 16)])"
  unfolding values_global_data_def example_flatten
  by (simp only: option.case prod.case sum.case example_emit)

lemma shared_emit:
  "map_sum id (\<lambda>ls. length (emitted_bytes ls))
     (gen_cpp_data_for_struct_values (set_offsets shared_heap [(0, 0), (1, 20), (1, 25)]) [0, 1, 1]) =
   Inr 30"
  by code_simp

lemma shared_reachable: "(edges shared_heap)\<^sup>* `` {0} = {0, 1}"
proof -
  have "({(0, 1)} :: (nat \<times> nat) set)\<^sup>* `` {0} = {0, 1}"
    by (auto simp: rtrancl_insert)
  then show ?thesis by (simp only: shared_edges)
qed

text \<open>
  C7, as stated, fails: on the acyclic store whose root \<open>D\<close> holds the record \<open>C\<close> in two
  fields, the records reachable from the root are \<open>D\<close> and \<open>C\<close>, 25 bytes when each is counted
  once, but \<open>C\<close> is listed and emitted twice and 30 bytes come out.
\<close>

theorem shared_record_emitted_twice:
  "acyclic (edges shared_heap)
   \<and> (edges shared_heap)\<^sup>* `` {0} = {0, 1}
   \<and> c_size (struct_def (shared_heap 0)) + c_size (struct_def (shared_heap 1)) = 25
   \<and> (\<exists>ls. values_global_data shared_heap (Ref 0) =
              Some (Inr ls, set_offsets shared_heap [(0, 0), (1, 20), (1, 25)])
            \<and> length (emitted_bytes ls) = 30)"
proof -
  have a: "acyclic (edges shared_heap)"
    unfolding shared_edges by (rule acyclic_subset[OF wf_acyclic[OF wf_less]]) simp
  have c: "c_size (struct_def (shared_heap 0)) + c_size (struct_def (shared_heap 1)) = 25"
    by (simp add: shared_heap_def D_def_def new_C_def C_def_def)
  let ?h = "set_offsets shared_heap [(0, 0), (1, 20), (1, 25)]"
  obtain ls where ls: "gen_cpp_data_for_struct_values ?h [0, 1, 1] = Inr ls"
    "length (emitted_bytes ls) = 30"
    using shared_emit by (cases "gen_cpp_data_for_struct_values ?h [0, 1, 1]") simp_all
  have "values_global_data shared_heap (Ref 0) = Some (Inr ls, ?h)"
    unfolding values_global_data_def shared_flatten
    by (simp only: option.case prod.case sum.case ls(1))
  with ls(2) have "\<exists>ls. values_global_data shared_heap (Ref 0) = Some (Inr ls, ?h)
            \<and> length (emitted_bytes ls) = 30" by blast
  with a shared_reachable c show ?thesis by (simp only: simp_thms)
qed

text \<open>
  C7, amended. For a value tree whose records have \<^verbatim>\<open>c_size\<close> equal to the sum of the widths
  of their fields, when flattening and emission succeed the emitted bytes are the byte runs
  of the records concatenated in the order of the flattened list, and their number is the sum
  of \<^verbatim>\<open>c_size\<close> over the entries of that list. The list has one entry for each place where a
  record is nested: each reachable record is counted once when the records of the tree are
  distinct objects, and a record nested twice is emitted and counted twice.
\<close>

theorem emitted_length_is_sum_of_sizes:
  assumes "is_tree h t"
    and "vars (struct_def (h (root_of t))) = v0 # vs" and "var_name v0 = ''version''"
    and "\<forall>a \<in> set (nodes t). well_formed h a"
    and "values_global_data h (Ref (root_of t)) = Some (Inr ls, h')"
  shows "\<exists>vals. flatten_values_tree h (Ref (root_of t)) = Some (Inr vals, h')
           \<and> mset vals = mset (nodes t)
           \<and> distinct vals = distinct (nodes t)
           \<and> emitted_bytes ls = concat (map (record_bytes h') vals)
           \<and> int (length (emitted_bytes ls)) = sum_list (map (\<lambda>a. c_size (struct_def (h a))) vals)
           \<and> int (length (emitted_bytes ls)) =
               sum_list (map (\<lambda>a. c_size (struct_def (h a))) (nodes t))"
proof -
  from emitted_length[OF assms] obtain vals where
    v: "flatten_values_tree h (Ref (root_of t)) = Some (Inr vals, h')"
      "mset vals = mset (nodes t)"
      "emitted_bytes ls = concat (map (record_bytes h') vals)"
      "int (length (emitted_bytes ls)) = sum_list (map (\<lambda>a. c_size (struct_def (h a))) vals)"
    by blast
  have d: "distinct vals = distinct (nodes t)"
    using v(2) by (rule mset_eq_imp_distinct_iff)
  have s: "sum_list (map (\<lambda>a. c_size (struct_def (h a))) vals) =
           sum_list (map (\<lambda>a. c_size (struct_def (h a))) (nodes t))"
    using v(2) by (rule sum_list_mset_cong)
  from v d s have "flatten_values_tree h (Ref (root_of t)) = Some (Inr vals, h')
           \<and> mset vals = mset (nodes t)
           \<and> distinct vals = distinct (nodes t)
           \<and> emitted_bytes ls = concat (map (record_bytes h') vals)
           \<and> int (length (emitted_bytes ls)) = sum_list (map (\<lambda>a. c_size (struct_def (h a))) vals)
           \<and> int (length (emitted_bytes ls)) =
               sum_list (map (\<lambda>a. c_size (struct_def (h a))) (nodes t))"
    by simp
  then show ?thesis by (rule exI[where x = vals])
qed

theorem emitted_length_is_sum_of_sizes_witness:
  "\<exists>ls h'. values_global_data example_heap (Ref 0) = Some (Inr ls, h')
      \<and> length (emitted_bytes ls) = 21
      \<and> c_size (struct_def (example_heap 0)) + c_size (struct_def (example_heap 1)) = 21"
proof -
  have wf: "\<forall>a \<in> set (nodes (Node 0 [Node 1 []])). well_formed example_heap a"
    by (simp add: well_formed_def example_heap_def new_S_def new_C_def S_def_def C_def_def
        T_u32_def T_u8_def T_ptr_def null_C_def)
  have n: "var_name \<lparr>var_name = ''version'', var_typ = T_u32\<rparr> = ''version''" by simp
  have run: "values_global_data example_heap (Ref (root_of (Node 0 [Node 1 []]))) =
     Some (Inr [Text ''static uint8_t gSDefault[] = {'', Text [],
       StructComment ''S'' 0,
       DataLine [0, 0, 3, 2] ''uint32_t'' ''version'' (Hex 33751040),
       DataLine [5, 0, 0, 0] ''uint32_t'' ''version'' (Hex 5),
       DataLine [16, 0, 0, 0, 0, 0, 0, 0] ''Ptr<C>'' ''child'' (Hex 16), Text [],
       StructComment ''C'' 16,
       DataLine [0, 0, 3, 2] ''uint32_t'' ''version'' (Hex 33751040),
       DataLine [1] ''uint8_t'' ''flag'' (Hex 1), Text ''};''],
      set_offsets example_heap [(0, 0), (1, 16)])"
    using example_run by simp
  have c: "c_size (struct_def (example_heap 0)) + c_size (struct_def (example_heap 1)) = 21"
    by (simp add: example_heap_def new_S_def new_C_def S_def_def C_def_def)
  from emitted_length_is_sum_of_sizes[OF example_is_tree example_vars n wf run]
  have "int (length (emitted_bytes [Text ''static uint8_t gSDefault[] = {'', Text [],
       StructComment ''S'' 0,
       DataLine [0, 0, 3, 2] ''uint32_t'' ''version'' (Hex 33751040),
       DataLine [5, 0, 0, 0] ''uint32_t'' ''version'' (Hex 5),
       DataLine [16, 0, 0, 0, 0, 0, 0, 0] ''Ptr<C>'' ''child'' (Hex 16), Text [],
       StructComment ''C'' 16,
       DataLine [0, 0, 3, 2] ''uint32_t'' ''version'' (Hex 33751040),
       DataLine [1] ''uint8_t'' ''flag'' (Hex 1), Text ''};''])) =
      sum_list (map (\<lambda>a. c_size (struct_def (example_heap a))) (nodes (Node 0 [Node 1 []])))"
    by blast
  with c have "length (emitted_bytes [Text ''static uint8_t gSDefault[] = {'', Text [],
       StructComment ''S'' 0,
       DataLine [0, 0, 3, 2] ''uint32_t'' ''version'' (Hex 33751040),
       DataLine [5, 0, 0, 0] ''uint32_t'' ''version'' (Hex 5),
       DataLine [16, 0, 0, 0, 0, 0, 0, 0] ''Ptr<C>'' ''child'' (Hex 16), Text [],
       StructComment ''C'' 16,
       DataLine [0, 0, 3, 2] ''uint32_t'' ''version'' (Hex 33751040),
       DataLine [1] ''uint8_t'' ''flag'' (Hex 1), Text ''};'']) = 21"
    by simp
  with example_run c show ?thesis by blast
qed

section \<open>Stores with the same structure\<close>

lemma nested_mem: "Ref c \<in> set flds \<Longrightarrow> val (h c) \<noteq> None \<Longrightarrow> c \<in> set (nested h flds)"
  by (induction h flds rule: nested.induct) auto

lemma flatten_loop_closed:
  assumes "flatten_loop h left offs vals = Some y" "fst y = Inr vs"
  shows "set left \<subseteq> set vs \<and> set vals \<subseteq> set vs
         \<and> (\<forall>a \<in> set vs. a \<notin> set vals \<longrightarrow> set (children h a) \<subseteq> set vs)"
  using assms
proof (induction rule: flatten_loop_induct)
  case (Nil h offs vals)
  then show ?case by simp
next
  case (TypeError h v left offs vals)
  then show ?case by simp
next
  case (Step h v left offs vals flds y)
  from Step.IH[OF Step.prems, unfolded children_upd] have
    l: "set (left @ nested h flds) \<subseteq> set vs" and v: "set (vals @ [v]) \<subseteq> set vs"
    and c: "\<forall>a \<in> set vs. a \<notin> set (vals @ [v]) \<longrightarrow> set (children h a) \<subseteq> set vs"
    by blast+
  have ch: "children h v = nested h flds"
    using Step.hyps(1) by (simp add: children_def)
  have 1: "set (v # left) \<subseteq> set vs" using l v by simp
  have 2: "set vals \<subseteq> set vs" using v by simp
  have 3: "set (children h a) \<subseteq> set vs" if "a \<in> set vs" "a \<notin> set vals" for a
  proof (cases "a = v")
    case True
    with ch l show ?thesis by simp
  next
    case False
    with that c show ?thesis by simp
  qed
  from 1 2 3 show ?case by blast
qed

lemma flatten_loop_structure:
  assumes "flatten_loop h left offs vals = Some y"
    and "\<forall>a. s_typ (g a) = s_typ (h a) \<and> struct_def (g a) = struct_def (h a) \<and> val (g a) = val (h a)"
  shows "\<exists>g'. flatten_loop g left offs vals = Some (fst y, g')
            \<and> (\<forall>a. g' a = snd y a \<or> (g' a = g a \<and> snd y a = h a))
            \<and> (\<forall>vs. fst y = Inr vs \<longrightarrow> (\<forall>a \<in> set vs. a \<in> set vals \<or> g' a = snd y a))"
  using assms
proof (induction arbitrary: g rule: flatten_loop_induct)
  case (Nil h offs vals)
  have "flatten_loop g [] offs vals = Some (Inr vals, g)" by (rule flatten_loop_Nil)
  then have "flatten_loop g [] offs vals = Some (fst (Inr vals, h), g)
            \<and> (\<forall>a. g a = snd (Inr vals, h) a \<or> (g a = g a \<and> snd (Inr vals, h) a = h a))
            \<and> (\<forall>vs. fst (Inr vals, h) = Inr vs \<longrightarrow> (\<forall>a \<in> set vs. a \<in> set vals \<or> g a = snd (Inr vals, h) a))"
    by simp
  then show ?case by (rule exI[where x = g])
next
  case (TypeError h v left offs vals)
  from flatten_loop_rerun[where g = g, OF _ TypeError.prems,
      of "v # left" offs vals "(Inl TypeError, h(v := (h v)\<lparr>offset := Some offs\<rparr>))"]
    TypeError.hyps
  obtain g' where g': "flatten_loop g (v # left) offs vals =
         Some (fst (Inl TypeError, h(v := (h v)\<lparr>offset := Some offs\<rparr>)), g')
       \<and> (\<forall>a. g' a = snd (Inl TypeError, h(v := (h v)\<lparr>offset := Some offs\<rparr>)) a
              \<or> (g' a = g a \<and> snd (Inl TypeError, h(v := (h v)\<lparr>offset := Some offs\<rparr>)) a = h a))"
    by (auto simp: flatten_loop_Cons)
  then have "flatten_loop g (v # left) offs vals =
         Some (fst (Inl TypeError, h(v := (h v)\<lparr>offset := Some offs\<rparr>)), g')
       \<and> (\<forall>a. g' a = snd (Inl TypeError, h(v := (h v)\<lparr>offset := Some offs\<rparr>)) a
              \<or> (g' a = g a \<and> snd (Inl TypeError, h(v := (h v)\<lparr>offset := Some offs\<rparr>)) a = h a))
       \<and> (\<forall>vs. fst (Inl TypeError, h(v := (h v)\<lparr>offset := Some offs\<rparr>)) = Inr vs \<longrightarrow>
             (\<forall>a \<in> set vs. a \<in> set vals
                \<or> g' a = snd (Inl TypeError, h(v := (h v)\<lparr>offset := Some offs\<rparr>)) a))"
    by simp
  then show ?case by (rule exI[where x = g'])
next
  case (Step h v left offs vals flds y)
  let ?h = "h(v := (h v)\<lparr>offset := Some offs\<rparr>)"
  let ?g = "g(v := (g v)\<lparr>offset := Some offs\<rparr>)"
  have gh: "s_typ (g a) = s_typ (h a)" "struct_def (g a) = struct_def (h a)"
    "val (g a) = val (h a)" for a
    using Step.prems by blast+
  have eq: "(g v)\<lparr>offset := Some offs\<rparr> = (h v)\<lparr>offset := Some offs\<rparr>"
    using gh by (rule offset_update_eq)
  have "s_typ (?g a) = s_typ (?h a) \<and> struct_def (?g a) = struct_def (?h a)
                \<and> val (?g a) = val (?h a)" for a
    using gh[of a] by (cases "a = v") simp_all
  then have same: "\<forall>a. s_typ (?g a) = s_typ (?h a) \<and> struct_def (?g a) = struct_def (?h a)
                \<and> val (?g a) = val (?h a)" ..
  from Step.IH[OF same] obtain g' where g':
    "flatten_loop ?g (left @ nested h flds) (offs + c_size (struct_def (h v))) (vals @ [v]) = Some (fst y, g')
     \<and> (\<forall>a. g' a = snd y a \<or> (g' a = ?g a \<and> snd y a = ?h a))
     \<and> (\<forall>vs. fst y = Inr vs \<longrightarrow> (\<forall>a \<in> set vs. a \<in> set (vals @ [v]) \<or> g' a = snd y a))" ..
  have nst: "nested g flds = nested h flds"
    by (rule nested_same_val) (simp add: gh)
  have "flatten_loop g (v # left) offs vals =
          flatten_loop ?g (left @ nested h flds) (offs + c_size (struct_def (h v))) (vals @ [v])"
    by (simp add: flatten_loop_Cons gh Step.hyps(1) nst)
  with g' have run: "flatten_loop g (v # left) offs vals = Some (fst y, g')" by simp
  have gv: "g' v = snd y v"
  proof -
    from g' have "g' v = snd y v \<or> (g' v = ?g v \<and> snd y v = ?h v)" by blast
    with eq show ?thesis by auto
  qed
  have d: "g' a = snd y a \<or> (g' a = g a \<and> snd y a = h a)" for a
  proof (cases "a = v")
    case True
    with gv show ?thesis by simp
  next
    case False
    from g' have "g' a = snd y a \<or> (g' a = ?g a \<and> snd y a = ?h a)" by blast
    with False show ?thesis by simp
  qed
  have w: "a \<in> set vals \<or> g' a = snd y a" if "fst y = Inr vs" "a \<in> set vs" for vs a
  proof (cases "a = v")
    case True
    with gv show ?thesis by simp
  next
    case False
    from g' that have "a \<in> set (vals @ [v]) \<or> g' a = snd y a" by blast
    with False show ?thesis by simp
  qed
  from d have D: "\<forall>a. g' a = snd y a \<or> (g' a = g a \<and> snd y a = h a)" ..
  from w have W: "\<forall>vs. fst y = Inr vs \<longrightarrow> (\<forall>a \<in> set vs. a \<in> set vals \<or> g' a = snd y a)" by blast
  from run D W have "flatten_loop g (v # left) offs vals = Some (fst y, g')
      \<and> (\<forall>a. g' a = snd y a \<or> (g' a = g a \<and> snd y a = h a))
      \<and> (\<forall>vs. fst y = Inr vs \<longrightarrow> (\<forall>a \<in> set vs. a \<in> set vals \<or> g' a = snd y a))"
    by (intro conjI)
  then show ?case by (rule exI[where x = g'])
qed

lemma field_lines_cong:
  "(\<forall>f \<in> set flds. field_typ g f = field_typ h f \<and> field_value g f = field_value h f) \<Longrightarrow>
   field_lines g flds lines sz = field_lines h flds lines sz"
proof (induction flds arbitrary: lines sz)
  case Nil
  show ?case by simp
next
  case (Cons fld flds)
  from Cons.prems have f: "field_typ g fld = field_typ h fld" "field_value g fld = field_value h fld"
    and r: "\<forall>f \<in> set flds. field_typ g f = field_typ h f \<and> field_value g f = field_value h f"
    by simp_all
  show ?case
    by (simp add: f Cons.IH[OF r] split: sum.splits)
qed

lemma get_cpp_data_cong:
  assumes "struct_def (g a) = struct_def (h a)" "val (g a) = val (h a)"
    and "\<And>flds f. val (h a) = Some flds \<Longrightarrow> f \<in> set flds \<Longrightarrow>
           field_typ g f = field_typ h f \<and> field_value g f = field_value h f"
  shows "get_cpp_data_for_struct_val g a offs = get_cpp_data_for_struct_val h a offs"
proof (cases "val (h a)")
  case None
  with assms(2) show ?thesis by (simp add: get_cpp_data_for_struct_val_def)
next
  case (Some flds)
  from assms(3)[OF Some] have
    "\<forall>f \<in> set flds. field_typ g f = field_typ h f \<and> field_value g f = field_value h f"
    by blast
  from field_lines_cong[OF this] Some assms(1,2) show ?thesis
    by (simp add: get_cpp_data_for_struct_val_def)
qed

lemma struct_lines_cong:
  "(\<forall>a \<in> set vals. \<forall>offs. get_cpp_data_for_struct_val g a offs = get_cpp_data_for_struct_val h a offs) \<Longrightarrow>
   struct_lines g vals lines offs = struct_lines h vals lines offs"
proof (induction vals arbitrary: lines offs)
  case Nil
  show ?case by simp
next
  case (Cons v vals)
  from Cons.prems have
    v: "get_cpp_data_for_struct_val g v offs = get_cpp_data_for_struct_val h v offs"
    and r: "\<forall>a \<in> set vals. \<forall>offs. get_cpp_data_for_struct_val g a offs = get_cpp_data_for_struct_val h a offs"
    by simp_all
  show ?case
    by (simp add: v Cons.IH[OF r] split: sum.splits)
qed

lemma gen_cpp_data_cong:
  assumes "\<forall>a \<in> set vals. struct_def (g a) = struct_def (h a)"
    and "\<forall>a \<in> set vals. \<forall>offs. get_cpp_data_for_struct_val g a offs = get_cpp_data_for_struct_val h a offs"
  shows "gen_cpp_data_for_struct_values g vals = gen_cpp_data_for_struct_values h vals"
proof (cases vals)
  case Nil
  then show ?thesis by (simp add: gen_cpp_data_for_struct_values_def)
next
  case (Cons v vs)
  with assms(1) have "struct_def (g v) = struct_def (h v)" by simp
  with struct_lines_cong[OF assms(2)] Cons show ?thesis
    by (simp add: gen_cpp_data_for_struct_values_def)
qed

lemma values_global_data_cases:
  assumes "values_global_data h root = Some (out, h')"
  obtains res where "flatten_values_tree h root = Some (res, h')"
    "out = (case res of Inl e \<Rightarrow> Inl e | Inr vals \<Rightarrow> gen_cpp_data_for_struct_values h' vals)"
proof (cases "flatten_values_tree h root")
  case None
  with assms show ?thesis by (simp add: values_global_data_def)
next
  case (Some p)
  obtain res h1 where p: "p = (res, h1)" by (cases p)
  from assms have "(case res of Inl e \<Rightarrow> Some (Inl e, h1)
      | Inr vals \<Rightarrow> Some (gen_cpp_data_for_struct_values h1 vals, h1)) = Some (out, h')"
    unfolding values_global_data_def Some p by (simp only: option.case prod.case)
  then have "h1 = h' \<and> out = (case res of Inl e \<Rightarrow> Inl e | Inr vals \<Rightarrow> gen_cpp_data_for_struct_values h1 vals)"
    by (cases res) auto
  then have "flatten_values_tree h root = Some (res, h')"
    "out = (case res of Inl e \<Rightarrow> Inl e | Inr vals \<Rightarrow> gen_cpp_data_for_struct_values h' vals)"
    using Some p by auto
  then show ?thesis by (rule that)
qed

lemma values_global_data_of_flatten:
  "flatten_values_tree h root = Some (res, h') \<Longrightarrow>
   values_global_data h root =
     Some (case res of Inl e \<Rightarrow> Inl e | Inr vals \<Rightarrow> gen_cpp_data_for_struct_values h' vals, h')"
  by (cases res) (simp_all add: values_global_data_def)

lemma values_global_data_rerun:
  assumes "values_global_data h root = Some (out, h')"
  shows "values_global_data h' root = Some (out, h')"
proof -
  from assms obtain res where fl: "flatten_values_tree h root = Some (res, h')"
    and out: "out = (case res of Inl e \<Rightarrow> Inl e | Inr vals \<Rightarrow> gen_cpp_data_for_struct_values h' vals)"
    by (rule values_global_data_cases)
  from flatten_values_tree_rerun[OF fl] have "flatten_values_tree h' root = Some (res, h')" .
  from values_global_data_of_flatten[OF this] out show ?thesis by simp
qed

lemma values_global_data_structure:
  assumes ss: "same_structure g h" and sn: "same_null_offsets g h"
    and run: "values_global_data h root = Some (out, h')"
  shows "\<exists>g'. values_global_data g root = Some (out, g')"
proof (cases root)
  case (Prim t v)
  with run show ?thesis by (simp add: values_global_data_def flatten_values_tree_def)
next
  case (Ref r)
  from ss have gh: "s_typ (g a) = s_typ (h a)" "struct_def (g a) = struct_def (h a)"
    "val (g a) = val (h a)" for a
    by (simp_all add: same_structure_def)
  from run obtain res where fl: "flatten_values_tree h root = Some (res, h')"
    and out: "out = (case res of Inl e \<Rightarrow> Inl e | Inr vals \<Rightarrow> gen_cpp_data_for_struct_values h' vals)"
    by (rule values_global_data_cases)
  from fl[unfolded Ref] show ?thesis
  proof (cases rule: flatten_values_tree_cases)
    case Index
    from Index(1) have "flatten_values_tree g (Ref r) = Some (Inl IndexError, g)"
      by (simp add: flatten_values_tree_def gh)
    from values_global_data_of_flatten[OF this] Index out Ref show ?thesis by simp
  next
    case (Assertion v0 vs)
    from Assertion(1,2) have "flatten_values_tree g (Ref r) = Some (Inl AssertionError, g)"
      by (simp add: flatten_values_tree_def gh)
    from values_global_data_of_flatten[OF this] Assertion out Ref show ?thesis by simp
  next
    case (Loop v0 vs)
    have same: "\<forall>a. s_typ (g a) = s_typ (h a) \<and> struct_def (g a) = struct_def (h a) \<and> val (g a) = val (h a)"
      using gh by simp
    from flatten_loop_structure[OF Loop(3) same] obtain g' where
      g': "flatten_loop g [r] 0 [] = Some (res, g')"
      and d: "\<And>a. g' a = h' a \<or> (g' a = g a \<and> h' a = h a)"
      and w: "\<And>vals a. res = Inr vals \<Longrightarrow> a \<in> set vals \<Longrightarrow> g' a = h' a"
      by (auto simp del: fun_upd_apply)
    from Loop(1,2) g' have flg: "flatten_values_tree g (Ref r) = Some (res, g')"
      by (simp add: flatten_values_tree_def gh)
    have hh': "s_typ (h' a) = s_typ (h a)" "struct_def (h' a) = struct_def (h a)" "val (h' a) = val (h a)" for a
      using flatten_loop_frame_pair(1,2,3)[OF Loop(3)] by simp_all
    have "gen_cpp_data_for_struct_values g' vals = gen_cpp_data_for_struct_values h' vals"
      if res: "res = Inr vals" for vals
    proof (rule gen_cpp_data_cong)
      show "\<forall>a \<in> set vals. struct_def (g' a) = struct_def (h' a)"
        using w[OF res] by simp
      from flatten_loop_closed[OF Loop(3), of vals] res
      have closed: "\<And>a. a \<in> set vals \<Longrightarrow> set (children h a) \<subseteq> set vals" by simp
      show "\<forall>a \<in> set vals. \<forall>offs. get_cpp_data_for_struct_val g' a offs = get_cpp_data_for_struct_val h' a offs"
      proof (intro ballI allI)
        fix a offs
        assume a: "a \<in> set vals"
        show "get_cpp_data_for_struct_val g' a offs = get_cpp_data_for_struct_val h' a offs"
        proof (rule get_cpp_data_cong)
          show "struct_def (g' a) = struct_def (h' a)" "val (g' a) = val (h' a)"
            using w[OF res a] by simp_all
        next
          fix flds f
          assume flds: "val (h' a) = Some flds" and f: "f \<in> set flds"
          show "field_typ g' f = field_typ h' f \<and> field_value g' f = field_value h' f"
          proof (cases f)
            case (Prim t v)
            then show ?thesis by simp
          next
            case (Ref c)
            have "g' c = h' c \<or> (s_typ (g' c) = s_typ (h' c) \<and> offset (g' c) = offset (h' c))"
            proof (cases "val (h c)")
              case None
              from sn None have "offset (g c) = offset (h c)" by (simp add: same_null_offsets_def)
              with d[of c] gh(1)[of c] show ?thesis by auto
            next
              case (Some y)
              from flds hh'(3)[of a] have "val (h a) = Some flds" by simp
              with f Ref Some have "c \<in> set (children h a)"
                by (simp add: children_def nested_mem)
              with closed[OF a] have "c \<in> set vals" by blast
              from w[OF res this] show ?thesis by simp
            qed
            with Ref show ?thesis by auto
          qed
        qed
      qed
    qed
    then have "(case res of Inl e \<Rightarrow> Inl e | Inr vals \<Rightarrow> gen_cpp_data_for_struct_values g' vals) = out"
      unfolding out by (cases res) simp_all
    with values_global_data_of_flatten[OF flg] Ref show ?thesis by simp
  qed
qed

lemma same_structure_sym: "same_structure g h \<Longrightarrow> same_structure h g"
  by (simp add: same_structure_def)

lemma same_null_offsets_sym: "same_structure g h \<Longrightarrow> same_null_offsets g h \<Longrightarrow> same_null_offsets h g"
  by (simp add: same_structure_def same_null_offsets_def)

lemma values_global_data_same_structure:
  assumes "same_structure g h" "same_null_offsets g h"
  shows "map_option fst (values_global_data g root) = map_option fst (values_global_data h root)"
proof (cases "values_global_data h root")
  case None
  have "values_global_data g root = None"
  proof (cases "values_global_data g root")
    case (Some p)
    obtain out g' where "p = (out, g')" by (cases p)
    with Some values_global_data_structure[OF same_structure_sym[OF assms(1)]
        same_null_offsets_sym[OF assms], of root out g'] None
    show ?thesis by simp
  qed simp
  with None show ?thesis by simp
next
  case (Some p)
  obtain out h' where "p = (out, h')" by (cases p)
  with Some values_global_data_structure[OF assms, of root out h'] show ?thesis by auto
qed

lemma null_reference_flatten:
  "flatten_values_tree null_child_heap (Ref 1) = Some (Inl TypeError, stale_heap)"
proof -
  have v: "val (null_child_heap 1) = None"
    by (simp add: null_child_heap_def null_C_def)
  have vs: "vars (struct_def (null_child_heap 1)) =
      \<lparr>var_name = ''version'', var_typ = T_u32\<rparr> # [\<lparr>var_name = ''flag'', var_typ = T_u8\<rparr>]"
    by (simp add: null_child_heap_def null_C_def C_def_def)
  have "flatten_loop null_child_heap [1] 0 [] = Some (Inl TypeError, stale_heap)"
    unfolding stale_heap_def by (simp only: flatten_loop_Cons v option.case)
  then show ?thesis
    using vs by (simp add: flatten_values_tree_def)
qed

lemma stale_same_structure: "same_structure stale_heap null_child_heap"
  by (simp add: same_structure_def stale_heap_def)

lemma stale_is_tree: "is_tree stale_heap (Node 0 [])"
  by (simp add: stale_heap_def null_child_heap_def children_def new_S_def null_C_def)

lemma stale_vars:
  "vars (struct_def (stale_heap (root_of (Node 0 [])))) =
     \<lparr>var_name = ''version'', var_typ = T_u32\<rparr> #
     [\<lparr>var_name = ''count'', var_typ = T_u32\<rparr>, \<lparr>var_name = ''child'', var_typ = T_ptr\<rparr>]"
  by (simp add: stale_heap_def null_child_heap_def new_S_def S_def_def)

lemma stale_flatten:
  "flatten_values_tree stale_heap (Ref 0) = Some (Inr [0], set_offsets stale_heap [(0, 0)])"
  using flatten_tree[OF stale_is_tree stale_vars] by simp

lemma stale_emit:
  "gen_cpp_data_for_struct_values (set_offsets stale_heap [(0, 0)]) [0] =
     Inr [Text ''static uint8_t gSDefault[] = {'', Text [],
       StructComment ''S'' 0,
       DataLine [0, 0, 3, 2] ''uint32_t'' ''version'' (Hex 33751040),
       DataLine [5, 0, 0, 0] ''uint32_t'' ''version'' (Hex 5),
       DataLine [0, 0, 0, 0, 0, 0, 0, 0] ''Ptr<C>'' ''child'' (Hex 0), Text ''};'']"
  by code_simp




end
